theory Spec2Isabelle
  imports Main "HOL-Library.Word"
begin

section \<open>Job rows and the job table (internal/repository/dao/sql_job.go)\<close>

text \<open>
  Go's \<open>int64\<close> is a 64-bit word read as two's complement; Go's \<open>int\<close> is taken at its
  64-bit width, so \<open>j.Version + 1\<close> wraps around. SQL compares the \<open>bigint\<close> columns
  as signed numbers: \<open><s\<close> and \<open>\<le>s\<close>. A value the store refuses is a failure of the
  statement, one of the faults below.
\<close>

type_synonym int64 = "64 word"
type_synonym goint = "64 word"

record Job =
  Id :: int64
  Name :: string
  Executor :: string
  Expression :: string
  Cfg :: string
  Status :: goint
  Version :: goint
  NextTime :: int64
  CreateTime :: int64
  UpdatedTime :: int64

text \<open>The \<open>iota\<close> constants.\<close>

definition jobStatusWaiting :: goint where
  "jobStatusWaiting = 0"

definition jobStatusRunning :: goint where
  "jobStatusRunning = 1"

definition jobStatusPaused :: goint where
  "jobStatusPaused = 2"

text \<open>\<open>Job{}\<close> and \<open>var j Job\<close>: every field at its zero value.\<close>

definition zero_Job :: Job where
  "zero_Job = \<lparr>Id = 0, Name = [], Executor = [], Expression = [], Cfg = [],
     Status = 0, Version = 0, NextTime = 0, CreateTime = 0, UpdatedTime = 0\<rparr>"

text \<open>
  The errors a DAO call can return: gorm's \<open>ErrRecordNotFound\<close> from \<open>First\<close>, and any
  other failure of the store (connection lost, context cancelled).
\<close>

datatype error = ErrRecordNotFound | ErrStore

text \<open>
  The table is the list of its rows. \<open>Id\<close> is the primary key, so the tables of interest
  satisfy \<open>pk_ok\<close>; theorems that need it assume it.
\<close>

definition pk_ok :: "Job list \<Rightarrow> bool" where
  "pk_ok rows \<longleftrightarrow> distinct (map Id rows)"

subsection \<open>The statements gorm sends\<close>

text \<open>\<open>WHERE status = jobStatusWaiting AND next_time < now\<close>.\<close>

definition due :: "int64 \<Rightarrow> Job \<Rightarrow> bool" where
  "due now j \<longleftrightarrow> Status j = jobStatusWaiting \<and> NextTime j <s now"

text \<open>
  \<open>First\<close> adds \<open>ORDER BY id LIMIT 1\<close>: of the rows it is given, the one with the least
  primary key.
\<close>

fun least_id :: "Job list \<Rightarrow> Job option" where
  "least_id [] = None"
| "least_id (j # js) =
     (case least_id js of
        None \<Rightarrow> Some j
      | Some k \<Rightarrow> if Id j \<le>s Id k then Some j else Some k)"

text \<open>
  \<open>db.Where("status = ? AND next_time < ?", jobStatusWaiting, now).First(&j).Error\<close>.
  The argument \<open>fault\<close> is the failure of the store at this call, if any.
\<close>

definition First_due :: "error option \<Rightarrow> int64 \<Rightarrow> Job list \<Rightarrow> error + Job" where
  "First_due fault now rows =
     (case fault of
        Some e \<Rightarrow> Inl e
      | None \<Rightarrow>
          (case least_id (filter (due now) rows) of
             None \<Rightarrow> Inl ErrRecordNotFound
           | Some j \<Rightarrow> Inr j))"

text \<open>
  \<open>db.Model(&Job{}).Where(p).Updates(f)\<close>: every row that satisfies \<open>p\<close> is rewritten by
  \<open>f\<close>; the second component is \<open>RowsAffected\<close>, the number of rows matched. The code
  reads it after the update of \<open>Preempt\<close> only, which changes every row it matches, so
  rows matched and rows changed are the same there.
\<close>

definition Updates :: "(Job \<Rightarrow> bool) \<Rightarrow> (Job \<Rightarrow> Job) \<Rightarrow> Job list \<Rightarrow> Job list \<times> nat" where
  "Updates p f rows = (map (\<lambda>r. if p r then f r else r) rows, length (filter p rows))"

text \<open>The update of \<open>Preempt\<close>, lines 63 to 67: keyed on \<open>id\<close> and \<open>version\<close>.\<close>

definition claimed :: "int64 \<Rightarrow> Job \<Rightarrow> Job" where
  "claimed now r = r\<lparr>Status := jobStatusRunning, Version := Version r + 1, UpdatedTime := now\<rparr>"

definition claim_update :: "error option \<Rightarrow> Job \<Rightarrow> int64 \<Rightarrow> Job list \<Rightarrow> error + (Job list \<times> nat)" where
  "claim_update fault j now rows =
     (case fault of
        Some e \<Rightarrow> Inl e
      | None \<Rightarrow>
          Inr (Updates (\<lambda>r. Id r = Id j \<and> Version r = Version j)
                 (\<lambda>r. r\<lparr>Status := jobStatusRunning, Version := Version j + 1, UpdatedTime := now\<rparr>)
                 rows))"

subsection \<open>Release, UpdateTime, UpdateNextTime\<close>

text \<open>
  Each takes the reading of \<open>time.Now().UnixMilli()\<close> as \<open>now\<close> and returns the table
  with the \<open>.Error\<close> of the statement.
\<close>

definition Release :: "error option \<Rightarrow> int64 \<Rightarrow> int64 \<Rightarrow> Job list \<Rightarrow> Job list \<times> error option" where
  "Release fault now jobId rows =
     (case fault of
        Some e \<Rightarrow> (rows, Some e)
      | None \<Rightarrow>
          (fst (Updates (\<lambda>r. Id r = jobId)
                  (\<lambda>r. r\<lparr>Status := jobStatusWaiting, UpdatedTime := now\<rparr>) rows), None))"

definition UpdateTime :: "error option \<Rightarrow> int64 \<Rightarrow> int64 \<Rightarrow> Job list \<Rightarrow> Job list \<times> error option" where
  "UpdateTime fault now jid rows =
     (case fault of
        Some e \<Rightarrow> (rows, Some e)
      | None \<Rightarrow>
          (fst (Updates (\<lambda>r. Id r = jid) (\<lambda>r. r\<lparr>UpdatedTime := now\<rparr>) rows), None))"

definition UpdateNextTime :: "error option \<Rightarrow> int64 \<Rightarrow> int64 \<Rightarrow> int64 \<Rightarrow> Job list \<Rightarrow> Job list \<times> error option" where
  "UpdateNextTime fault now jid t rows =
     (case fault of
        Some e \<Rightarrow> (rows, Some e)
      | None \<Rightarrow>
          (fst (Updates (\<lambda>r. Id r = jid) (\<lambda>r. r\<lparr>UpdatedTime := now, NextTime := t\<rparr>) rows), None))"

subsection \<open>Preempt\<close>

text \<open>
  Other sessions write to the table between the statements of one \<open>Preempt\<close> call. What
  iteration \<open>k\<close> of the loop meets is \<open>env k\<close>: the clock reading, the failures of its two
  statements, the writes of other sessions between its \<open>SELECT\<close> and its \<open>UPDATE\<close>, and
  those between its \<open>UPDATE\<close> and the next iteration.
\<close>

record iteration =
  clock :: int64
  select_fault :: "error option"
  between :: "Job list \<Rightarrow> Job list"
  update_fault :: "error option"
  afterwards :: "Job list \<Rightarrow> Job list"

text \<open>
  The loop of lines 54 to 76. The result is the pair that Go returns together with the
  table as the call leaves it; \<open>None\<close> is a call that never returns.
\<close>

partial_function (option) Preempt ::
  "(nat \<Rightarrow> iteration) \<Rightarrow> nat \<Rightarrow> Job list \<Rightarrow> ((Job \<times> error option) \<times> Job list) option" where
  "Preempt env k rows =
     (let now = clock (env k) in
      case First_due (select_fault (env k)) now rows of
        Inl err \<Rightarrow> Some ((zero_Job, Some err), rows)
      | Inr j \<Rightarrow>
          (let rows1 = between (env k) rows in
           case claim_update (update_fault (env k)) j now rows1 of
             Inl err \<Rightarrow> Some ((zero_Job, Some err), rows1)
           | Inr (rows2, affected) \<Rightarrow>
               if affected = 0 then Preempt env (Suc k) (afterwards (env k) rows2)
               else Some ((j, None), rows2)))"

text \<open>An iteration that no other session disturbs and in which the store answers.\<close>

definition quiet :: "int64 \<Rightarrow> iteration" where
  "quiet now = \<lparr>clock = now, select_fault = None, between = (\<lambda>rows. rows),
     update_fault = None, afterwards = (\<lambda>rows. rows)\<rparr>"

text \<open>
  A rival session for examples: between the query and the update of the observed call
  it claims a job with \<open>Preempt\<close> and hands it back with \<open>Release\<close>.
\<close>

definition rival :: "int64 \<Rightarrow> Job list \<Rightarrow> Job list" where
  "rival now rows =
     (case Preempt (\<lambda>k. quiet now) 0 rows of
        Some ((j, None), rows') \<Rightarrow> fst (Release None now (Id j) rows')
      | _ \<Rightarrow> rows)"

definition contended :: "int64 \<Rightarrow> iteration" where
  "contended now = \<lparr>clock = now, select_fault = None, between = rival now,
     update_fault = None, afterwards = (\<lambda>rows. rows)\<rparr>"

text \<open>An environment for examples: the rival acts in the first iteration only.\<close>

definition one_rival :: "int64 \<Rightarrow> nat \<Rightarrow> iteration" where
  "one_rival now k = (if k = 0 then contended now else quiet now)"

subsection \<open>The interface JobDAO\<close>

text \<open>
  The four methods of the interface, lines 19 to 24, as calls, and one call run alone at
  clock reading \<open>now\<close> with the store answering. The result is the table it leaves.
\<close>

datatype dao_call =
  CallPreempt
| CallRelease int64
| CallUpdateTime int64
| CallUpdateNextTime int64 int64

definition run_call :: "dao_call \<Rightarrow> int64 \<Rightarrow> Job list \<Rightarrow> Job list option" where
  "run_call c now rows =
     (case c of
        CallPreempt \<Rightarrow> map_option snd (Preempt (\<lambda>k. quiet now) 0 rows)
      | CallRelease jobId \<Rightarrow> Some (fst (Release None now jobId rows))
      | CallUpdateTime jid \<Rightarrow> Some (fst (UpdateTime None now jid rows))
      | CallUpdateNextTime jid t \<Rightarrow> Some (fst (UpdateNextTime None now jid t rows)))"

subsection \<open>Concurrent calls of Preempt\<close>

text \<open>
  Several sessions run \<open>Preempt\<close> against one table. The store runs one statement at a
  time, so a session is at its query (\<open>Start\<close>), at its update with the job and the clock
  reading of this iteration (\<open>Got\<close>), or has returned (\<open>Done\<close>). One step of a session
  is one statement of the loop body of lines 54 to 76.
\<close>

datatype wstate = Start | Got Job int64 | Done "Job \<times> error option"

fun worker_step :: "int64 \<Rightarrow> error option \<Rightarrow> Job list \<Rightarrow> wstate \<Rightarrow> Job list \<times> wstate" where
  "worker_step now fault rows Start =
     (case First_due fault now rows of
        Inl err \<Rightarrow> (rows, Done (zero_Job, Some err))
      | Inr j \<Rightarrow> (rows, Got j now))"
| "worker_step now fault rows (Got j t) =
     (case claim_update fault j t rows of
        Inl err \<Rightarrow> (rows, Done (zero_Job, Some err))
      | Inr (rows2, affected) \<Rightarrow>
          if affected = 0 then (rows2, Start) else (rows2, Done (j, None)))"
| "worker_step now fault rows (Done res) = (rows, Done res)"

text \<open>
  A schedule is a list of events: which session runs its next statement, the clock
  reading if the statement is the query, and the failure of the store at it, if any.
\<close>

type_synonym event = "nat \<times> int64 \<times> error option"
type_synonym system = "Job list \<times> wstate list"

definition sys_step :: "event \<Rightarrow> system \<Rightarrow> system" where
  "sys_step ev s =
     (case ev of (i, now, fault) \<Rightarrow>
      case s of (rows, ws) \<Rightarrow>
        if i < length ws then
          (case worker_step now fault rows (ws ! i) of (rows', w') \<Rightarrow> (rows', ws[i := w']))
        else (rows, ws))"

definition run :: "event list \<Rightarrow> system \<Rightarrow> system" where
  "run evs s = foldl (\<lambda>s ev. sys_step ev s) s evs"

text \<open>No two sessions have returned with the same job.\<close>

definition exclusive :: "wstate list \<Rightarrow> bool" where
  "exclusive ws \<longleftrightarrow>
     (\<forall>i<length ws. \<forall>i'<length ws. \<forall>j j'.
        ws ! i = Done (j, None) \<and> ws ! i' = Done (j', None) \<and> Id j = Id j' \<longrightarrow> i = i')"

text \<open>What every reachable state satisfies, relative to the table \<open>rows0\<close> at the start.\<close>

definition safe :: "Job list \<Rightarrow> system \<Rightarrow> bool" where
  "safe rows0 s \<longleftrightarrow>
     (case s of (rows, ws) \<Rightarrow>
        map Id rows = map Id rows0 \<and>
        (\<forall>r\<in>set rows. r \<in> set rows0 \<or>
           (\<exists>j\<in>set rows0. \<exists>t. Status j = jobStatusWaiting \<and> r = claimed t j)) \<and>
        (\<forall>w\<in>set ws. \<forall>j t. w = Got j t \<longrightarrow> j \<in> set rows0 \<and> Status j = jobStatusWaiting) \<and>
        (\<forall>w\<in>set ws. \<forall>j. w = Done (j, None) \<longrightarrow>
           j \<in> set rows0 \<and> Status j = jobStatusWaiting \<and> (\<exists>t. claimed t j \<in> set rows)) \<and>
        exclusive ws)"

text \<open>
  With one due job \<open>j0\<close> and a store that answers: while no session has the job, the
  table is untouched and no session has returned; and sessions hold or return nothing
  but \<open>j0\<close> or \<open>ErrRecordNotFound\<close>.
\<close>

definition lone :: "Job list \<Rightarrow> Job \<Rightarrow> system \<Rightarrow> bool" where
  "lone rows0 j0 s \<longleftrightarrow>
     (case s of (rows, ws) \<Rightarrow>
        ((\<forall>w\<in>set ws. \<forall>j. w \<noteq> Done (j, None)) \<longrightarrow>
           rows = rows0 \<and> (\<forall>w\<in>set ws. \<forall>res. w \<noteq> Done res)) \<and>
        (\<forall>w\<in>set ws. \<forall>j t. w = Got j t \<longrightarrow> j = j0) \<and>
        (\<forall>w\<in>set ws. \<forall>j e. w = Done (j, e) \<longrightarrow>
           (e = None \<and> j = j0) \<or> (e = Some ErrRecordNotFound \<and> j = zero_Job)))"

text \<open>
  Progress of a session: whether some session has returned with a job, a bound on the
  statements a session still runs before it returns, and the number of statements a
  schedule gives to session \<open>i\<close>.
\<close>

fun is_owner :: "wstate \<Rightarrow> bool" where
  "is_owner (Done (j, None)) = True"
| "is_owner w = False"

definition has_owner :: "wstate list \<Rightarrow> bool" where
  "has_owner ws \<longleftrightarrow> (\<exists>w\<in>set ws. is_owner w)"

fun todo :: "bool \<Rightarrow> wstate \<Rightarrow> nat" where
  "todo own Start = (if own then 1 else 3)"
| "todo own (Got j t) = 2"
| "todo own (Done res) = 0"

definition turns :: "nat \<Rightarrow> event list \<Rightarrow> nat" where
  "turns i evs = length (filter (\<lambda>ev. fst ev = i) evs)"

text \<open>A row for examples: id, status, version, next time, updated time.\<close>

definition row :: "int64 \<Rightarrow> goint \<Rightarrow> goint \<Rightarrow> int64 \<Rightarrow> int64 \<Rightarrow> Job" where
  "row i st v nt ut = \<lparr>Id = i, Name = [], Executor = [], Expression = [], Cfg = [],
     Status = st, Version = v, NextTime = nt, CreateTime = 0, UpdatedTime = ut\<rparr>"

section \<open>The interactive service (package service)\<close>

text \<open>
  \<open>repository.InteractiveRepository\<close> is an interface whose implementation is not among
  the sources, so the repository is a parameter: its three methods that \<open>Like\<close> calls, over
  a state \<open>'s\<close> of the repository and an error type \<open>'e\<close>. \<open>Liked\<close> returns Go's pair
  \<open>(bool, error)\<close>.
\<close>

record ('s, 'e) InteractiveRepository =
  Liked :: "string \<Rightarrow> int64 \<Rightarrow> int64 \<Rightarrow> 's \<Rightarrow> (bool \<times> 'e option) \<times> 's"
  IncrLike :: "string \<Rightarrow> int64 \<Rightarrow> int64 \<Rightarrow> 's \<Rightarrow> 'e option \<times> 's"
  DecrLike :: "string \<Rightarrow> int64 \<Rightarrow> int64 \<Rightarrow> 's \<Rightarrow> 'e option \<times> 's"

text \<open>\<open>interactiveService.Like\<close>: \<open>liked, _ := i.repo.Liked(ctx, biz, id, uid)\<close>.\<close>

definition Like ::
  "('s, 'e) InteractiveRepository \<Rightarrow> string \<Rightarrow> int64 \<Rightarrow> int64 \<Rightarrow> 's \<Rightarrow> 'e option \<times> 's" where
  "Like repo biz bid uid s =
     (case Liked repo biz bid uid s of
        ((liked, _), s1) \<Rightarrow>
          if liked then DecrLike repo biz bid uid s1 else IncrLike repo biz bid uid s1)"

text \<open>
  A repository for examples: one counter, one like flag, and a switch that makes the
  lookup fail. A failed lookup returns the boolean \<open>b\<close> with its error.
\<close>

record counter_repo =
  like_cnt :: int
  is_liked :: bool
  lookup_down :: bool

definition example_repo :: "bool \<Rightarrow> (counter_repo, error) InteractiveRepository" where
  "example_repo b = \<lparr>
     Liked = (\<lambda>biz bid uid s.
        if lookup_down s then ((b, Some ErrStore), s) else ((is_liked s, None), s)),
     IncrLike = (\<lambda>biz bid uid s. (None, s\<lparr>like_cnt := like_cnt s + 1, is_liked := True\<rparr>)),
     DecrLike = (\<lambda>biz bid uid s. (None, s\<lparr>like_cnt := like_cnt s - 1, is_liked := False\<rparr>))\<rparr>"


section \<open>Facts about the statements\<close>

lemmas status_defs = jobStatusWaiting_def jobStatusRunning_def jobStatusPaused_def

lemmas run_defs = First_due_def claim_update_def Updates_def due_def row_def zero_Job_def
  quiet_def status_defs word_sle_eq word_sless_alt

lemma least_id_None: "least_id js = None \<longleftrightarrow> js = []"
  by (induction js) (auto split: option.splits)

lemma least_id_mem: "least_id js = Some j \<Longrightarrow> j \<in> set js"
  by (induction js arbitrary: j) (auto split: option.splits if_splits)

lemma least_id_least: "least_id js = Some j \<Longrightarrow> r \<in> set js \<Longrightarrow> Id j \<le>s Id r"
proof (induction js arbitrary: j)
  case Nil
  then show ?case by simp
next
  case (Cons a js)
  show ?case
  proof (cases "least_id js")
    case None
    then have "js = []" by (simp add: least_id_None)
    with Cons.prems show ?thesis by simp
  next
    case (Some k)
    note IH = Cons.IH [OF Some]
    show ?thesis
    proof (cases "Id a \<le>s Id k")
      case True
      with Some Cons.prems(1) have ja: "j = a" by simp
      show ?thesis
      proof (cases "r = a")
        case True
        with ja show ?thesis by simp
      next
        case False
        with Cons.prems(2) have "r \<in> set js" by simp
        then have "Id k \<le>s Id r" by (rule IH)
        with True ja show ?thesis by (metis signed.order_trans)
      qed
    next
      case False
      with Some Cons.prems(1) have jk: "j = k" by simp
      show ?thesis
      proof (cases "r = a")
        case True
        with False jk show ?thesis by (metis signed.linear)
      next
        case False
        with Cons.prems(2) have "r \<in> set js" by simp
        with jk show ?thesis by (simp add: IH)
      qed
    qed
  qed
qed

lemma First_due_Inr:
  "First_due fault now rows = Inr j \<Longrightarrow> j \<in> set rows \<and> due now j \<and> fault = None"
  by (auto simp: First_due_def split: option.splits dest: least_id_mem)

lemma First_due_Inl:
  "First_due None now rows = Inl e \<Longrightarrow> e = ErrRecordNotFound \<and> (\<forall>r\<in>set rows. \<not> due now r)"
  by (auto simp: First_due_def least_id_None filter_empty_conv split: option.splits)

lemma First_due_least:
  "First_due fault now rows = Inr j \<Longrightarrow> r \<in> set rows \<Longrightarrow> due now r \<Longrightarrow> Id j \<le>s Id r"
  by (auto simp: First_due_def split: option.splits intro: least_id_least)

lemma Updates_none: "\<forall>r\<in>set rows. \<not> p r \<Longrightarrow> Updates p f rows = (rows, 0)"
  by (simp add: Updates_def map_idI filter_empty_conv)


lemma Release_member:
  "r \<in> set rows \<Longrightarrow> Id r = jid \<Longrightarrow>
   r\<lparr>Status := jobStatusWaiting, UpdatedTime := now\<rparr> \<in> set (fst (Release None now jid rows))"
  by (auto simp: Release_def Updates_def intro!: rev_image_eqI [of r])

lemma UpdateTime_member:
  "r \<in> set rows \<Longrightarrow> Id r = jid \<Longrightarrow>
   r\<lparr>UpdatedTime := now\<rparr> \<in> set (fst (UpdateTime None now jid rows))"
  by (auto simp: UpdateTime_def Updates_def intro!: rev_image_eqI [of r])

lemma UpdateNextTime_member:
  "r \<in> set rows \<Longrightarrow> Id r = jid \<Longrightarrow>
   r\<lparr>UpdatedTime := now, NextTime := t\<rparr> \<in> set (fst (UpdateNextTime None now jid t rows))"
  by (auto simp: UpdateNextTime_def Updates_def intro!: rev_image_eqI [of r])

lemma Release_keeps:
  "(\<And>r v. g (r\<lparr>Status := jobStatusWaiting, UpdatedTime := v\<rparr>) = g r) \<Longrightarrow>
   map g (fst (Release fault now jid rows)) = map g rows"
  by (cases fault) (simp_all add: Release_def Updates_def)

lemma UpdateTime_keeps:
  "(\<And>r v. g (r\<lparr>UpdatedTime := v\<rparr>) = g r) \<Longrightarrow>
   map g (fst (UpdateTime fault now jid rows)) = map g rows"
  by (cases fault) (simp_all add: UpdateTime_def Updates_def)

lemma UpdateNextTime_keeps:
  "(\<And>r v w. g (r\<lparr>UpdatedTime := v, NextTime := w\<rparr>) = g r) \<Longrightarrow>
   map g (fst (UpdateNextTime fault now jid t rows)) = map g rows"
  by (cases fault) (simp_all add: UpdateNextTime_def Updates_def)

lemmas Preempt_induct = Preempt.raw_induct [rotated 1, consumes 1]

lemma Preempt_undisturbed:
  assumes "between (env k) rows = rows"
  shows "Preempt env k rows =
    (case First_due (select_fault (env k)) (clock (env k)) rows of
       Inl e \<Rightarrow> Some ((zero_Job, Some e), rows)
     | Inr j \<Rightarrow>
        (case claim_update (update_fault (env k)) j (clock (env k)) rows of
           Inl e \<Rightarrow> Some ((zero_Job, Some e), rows)
         | Inr u \<Rightarrow> Some ((j, None), fst u)))"
proof (cases "First_due (select_fault (env k)) (clock (env k)) rows")
  case (Inl e)
  then show ?thesis by (subst Preempt.simps) simp
next
  case (Inr j)
  then have j: "j \<in> set rows" by (simp add: First_due_Inr)
  show ?thesis
  proof (cases "claim_update (update_fault (env k)) j (clock (env k)) rows")
    case (Inl e)
    with Inr assms show ?thesis by (subst Preempt.simps) simp
  next
    case u: (Inr u)
    obtain rows2 n where un: "u = (rows2, n)" by (cases u)
    from u un j have "n \<noteq> 0"
      by (auto simp: claim_update_def Updates_def filter_empty_conv split: option.splits)
    with Inr u un assms show ?thesis by (subst Preempt.simps) simp
  qed
qed

lemma Preempt_undisturbed_Some:
  "between (env k) rows = rows \<Longrightarrow> \<exists>y. Preempt env k rows = Some y"
  by (simp add: Preempt_undisturbed split: sum.splits)

lemma rival_single:
  assumes "NextTime r <s now" and "Status r = jobStatusWaiting"
  shows "rival now [r] = [r\<lparr>Status := jobStatusWaiting, Version := Version r + 1, UpdatedTime := now\<rparr>]"
proof -
  have "Preempt (\<lambda>k. quiet now) 0 [r] = Some ((r, None), [claimed now r])"
    using assms by (subst Preempt.simps) (simp add: First_due_def due_def quiet_def claim_update_def Updates_def claimed_def word_sle_eq)
  then show ?thesis
    by (simp add: rival_def Release_def Updates_def claimed_def)
qed

lemma pk_ok_same:
  "pk_ok rows \<Longrightarrow> x \<in> set rows \<Longrightarrow> r \<in> set rows \<Longrightarrow> Id x = Id r \<Longrightarrow> x = r"
  by (auto simp: pk_ok_def distinct_map dest: inj_onD)

lemma Updates_set:
  "r' \<in> set (fst (Updates p f rows)) \<Longrightarrow> (\<exists>x\<in>set rows. p x \<and> r' = f x) \<or> (r' \<in> set rows \<and> \<not> p r')"
  by (auto simp: Updates_def split: if_splits)

lemma Preempt_alone:
  "Preempt (\<lambda>k. quiet now) 0 rows =
     (case First_due None now rows of
        Inl e \<Rightarrow> Some ((zero_Job, Some e), rows)
      | Inr j \<Rightarrow> Some ((j, None), fst (Updates (\<lambda>r. Id r = Id j \<and> Version r = Version j)
          (\<lambda>r. r\<lparr>Status := jobStatusRunning, Version := Version j + 1, UpdatedTime := now\<rparr>) rows)))"
proof -
  have "between ((\<lambda>k. quiet now) 0) rows = rows" by (simp add: quiet_def)
  from Preempt_undisturbed [of "\<lambda>k. quiet now" 0 rows, OF this] show ?thesis
    by (simp add: quiet_def claim_update_def split: sum.splits)
qed

lemma no_call_reclaims:
  assumes pk: "pk_ok rows" and r: "r \<in> set rows" and st: "Status r = jobStatusRunning"
    and run: "run_call c now rows = Some rows'"
    and r': "r' \<in> set rows'" and same: "Id r' = Id r"
  shows "\<not> (Status r' = jobStatusWaiting \<and> Version r' = Version r + 1)"
proof (cases c)
  case CallPreempt
  show ?thesis
  proof (cases "First_due None now rows")
    case (Inl e)
    with run CallPreempt have "rows' = rows"
      by (auto simp: run_call_def Preempt_alone)
    with r' same pk r have "r' = r" by (auto dest: pk_ok_same)
    with st show ?thesis by (simp add: status_defs)
  next
    case (Inr j)
    with run CallPreempt have "rows' = fst (Updates (\<lambda>r. Id r = Id j \<and> Version r = Version j)
        (\<lambda>r. r\<lparr>Status := jobStatusRunning, Version := Version j + 1, UpdatedTime := now\<rparr>) rows)"
      by (auto simp: run_call_def Preempt_alone)
    from Updates_set [OF r' [unfolded this]] show ?thesis
    proof
      assume "\<exists>x\<in>set rows. (Id x = Id j \<and> Version x = Version j) \<and>
        r' = x\<lparr>Status := jobStatusRunning, Version := Version j + 1, UpdatedTime := now\<rparr>"
      then show ?thesis by (auto simp: status_defs)
    next
      assume "r' \<in> set rows \<and> \<not> (Id r' = Id j \<and> Version r' = Version j)"
      with same pk r have "r' = r" by (auto dest: pk_ok_same)
      with st show ?thesis by (simp add: status_defs)
    qed
  qed
next
  case (CallRelease i)
  with run have "rows' = fst (Updates (\<lambda>r. Id r = i)
      (\<lambda>r. r\<lparr>Status := jobStatusWaiting, UpdatedTime := now\<rparr>) rows)"
    by (simp add: run_call_def Release_def)
  from Updates_set [OF r' [unfolded this]] show ?thesis
  proof
    assume "\<exists>x\<in>set rows. Id x = i \<and> r' = x\<lparr>Status := jobStatusWaiting, UpdatedTime := now\<rparr>"
    then obtain x where x: "x \<in> set rows" "r' = x\<lparr>Status := jobStatusWaiting, UpdatedTime := now\<rparr>"
      by blast
    with same have "Id x = Id r" by simp
    with pk x(1) r have "x = r" by (rule pk_ok_same)
    with x(2) show ?thesis by simp
  next
    assume "r' \<in> set rows \<and> Id r' \<noteq> i"
    with same pk r have "r' = r" by (auto dest: pk_ok_same)
    with st show ?thesis by (simp add: status_defs)
  qed
next
  case (CallUpdateTime i)
  with run have "rows' = fst (Updates (\<lambda>r. Id r = i) (\<lambda>r. r\<lparr>UpdatedTime := now\<rparr>) rows)"
    by (simp add: run_call_def UpdateTime_def)
  from Updates_set [OF r' [unfolded this]] show ?thesis
  proof
    assume "\<exists>x\<in>set rows. Id x = i \<and> r' = x\<lparr>UpdatedTime := now\<rparr>"
    then obtain x where x: "x \<in> set rows" "r' = x\<lparr>UpdatedTime := now\<rparr>" by blast
    with same have "Id x = Id r" by simp
    with pk x(1) r have "x = r" by (rule pk_ok_same)
    with x(2) st show ?thesis by (simp add: status_defs)
  next
    assume "r' \<in> set rows \<and> Id r' \<noteq> i"
    with same pk r have "r' = r" by (auto dest: pk_ok_same)
    with st show ?thesis by (simp add: status_defs)
  qed
next
  case (CallUpdateNextTime i t)
  with run have "rows' = fst (Updates (\<lambda>r. Id r = i) (\<lambda>r. r\<lparr>UpdatedTime := now, NextTime := t\<rparr>) rows)"
    by (simp add: run_call_def UpdateNextTime_def)
  from Updates_set [OF r' [unfolded this]] show ?thesis
  proof
    assume "\<exists>x\<in>set rows. Id x = i \<and> r' = x\<lparr>UpdatedTime := now, NextTime := t\<rparr>"
    then obtain x where x: "x \<in> set rows" "r' = x\<lparr>UpdatedTime := now, NextTime := t\<rparr>" by blast
    with same have "Id x = Id r" by simp
    with pk x(1) r have "x = r" by (rule pk_ok_same)
    with x(2) st show ?thesis by (simp add: status_defs)
  next
    assume "r' \<in> set rows \<and> Id r' \<noteq> i"
    with same pk r have "r' = r" by (auto dest: pk_ok_same)
    with st show ?thesis by (simp add: status_defs)
  qed
qed

lemma First_due_finds:
  assumes "x \<in> set rows" and "due now x"
  shows "\<exists>c. First_due None now rows = Inr c"
proof (cases "First_due None now rows")
  case (Inl e)
  from First_due_Inl [OF Inl] assms show ?thesis by blast
next
  case (Inr c)
  then show ?thesis by blast
qed

lemma Release_nth:
  "length (fst (Release None now jid rows)) = length rows \<and>
   (\<forall>k<length rows. fst (Release None now jid rows) ! k =
      (if Id (rows ! k) = jid then (rows ! k)\<lparr>Status := jobStatusWaiting, UpdatedTime := now\<rparr>
       else rows ! k))"
  by (simp add: Release_def Updates_def)

lemma UpdateTime_nth:
  "length (fst (UpdateTime None now jid rows)) = length rows \<and>
   (\<forall>k<length rows. fst (UpdateTime None now jid rows) ! k =
      (if Id (rows ! k) = jid then (rows ! k)\<lparr>UpdatedTime := now\<rparr> else rows ! k))"
  by (simp add: UpdateTime_def Updates_def)

lemma UpdateNextTime_nth:
  "length (fst (UpdateNextTime None now jid t rows)) = length rows \<and>
   (\<forall>k<length rows. fst (UpdateNextTime None now jid t rows) ! k =
      (if Id (rows ! k) = jid then (rows ! k)\<lparr>UpdatedTime := now, NextTime := t\<rparr>
       else rows ! k))"
  by (simp add: UpdateNextTime_def Updates_def)

lemma released_selected:
  assumes pk: "pk_ok rows" and r: "r \<in> set rows" and late: "NextTime r <s later"
    and least: "\<forall>x\<in>set (fst (Release None now (Id r) rows)). due later x \<longrightarrow> Id r \<le>s Id x"
  shows "First_due None later (fst (Release None now (Id r) rows)) =
           Inr (r\<lparr>Status := jobStatusWaiting, UpdatedTime := now\<rparr>)"
proof -
  let ?rows' = "fst (Release None now (Id r) rows)"
  let ?r' = "r\<lparr>Status := jobStatusWaiting, UpdatedTime := now\<rparr>"
  from r have m: "?r' \<in> set ?rows'" by (simp add: Release_member)
  from late have d: "due later ?r'" by (simp add: due_def)
  from First_due_finds [OF m d] obtain c where c: "First_due None later ?rows' = Inr c" ..
  from First_due_least [OF c m d] have le: "Id c \<le>s Id r" by simp
  from First_due_Inr [OF c] have cm: "c \<in> set ?rows'" and cd: "due later c" by simp_all
  with least have "Id r \<le>s Id c" by blast
  with le have e: "Id c = Id ?r'" by (simp add: signed.order.antisym)
  have "map Id ?rows' = map Id rows" by (simp add: Release_keeps)
  with pk have "pk_ok ?rows'" by (simp add: pk_ok_def)
  from this cm m e have "c = ?r'" by (rule pk_ok_same)
  with c show ?thesis by simp
qed

lemma Preempt_alone_claims:
  assumes "First_due None now rows = Inr j"
  shows "\<exists>rows'. Preempt (\<lambda>k. quiet now) 0 rows = Some ((j, None), rows') \<and> claimed now j \<in> set rows'"
proof -
  from assms have j: "j \<in> set rows" by (simp add: First_due_Inr)
  then have "claimed now j \<in> set (fst (Updates (\<lambda>r. Id r = Id j \<and> Version r = Version j)
          (\<lambda>r. r\<lparr>Status := jobStatusRunning, Version := Version j + 1, UpdatedTime := now\<rparr>) rows))"
    by (auto simp: Updates_def claimed_def intro!: rev_image_eqI [of j])
  with assms show ?thesis by (simp add: Preempt_alone)
qed


section \<open>Facts about concurrent calls\<close>

lemma safeI:
  assumes "map Id rows = map Id rows0"
    and "\<And>r. r \<in> set rows \<Longrightarrow> r \<in> set rows0 \<or>
           (\<exists>j\<in>set rows0. \<exists>t. Status j = jobStatusWaiting \<and> r = claimed t j)"
    and "\<And>w j t. w \<in> set ws \<Longrightarrow> w = Got j t \<Longrightarrow> j \<in> set rows0 \<and> Status j = jobStatusWaiting"
    and "\<And>w j. w \<in> set ws \<Longrightarrow> w = Done (j, None) \<Longrightarrow>
           j \<in> set rows0 \<and> Status j = jobStatusWaiting \<and> (\<exists>t. claimed t j \<in> set rows)"
    and "exclusive ws"
  shows "safe rows0 (rows, ws)"
  using assms unfolding safe_def by (simp del: ex_simps) blast

lemma safe_ids: "safe rows0 (rows, ws) \<Longrightarrow> map Id rows = map Id rows0"
  by (simp add: safe_def)

lemma safe_rows:
  "safe rows0 (rows, ws) \<Longrightarrow> r \<in> set rows \<Longrightarrow>
   r \<in> set rows0 \<or> (\<exists>j\<in>set rows0. \<exists>t. Status j = jobStatusWaiting \<and> r = claimed t j)"
  unfolding safe_def by blast

lemma safe_Got:
  "safe rows0 (rows, ws) \<Longrightarrow> Got j t \<in> set ws \<Longrightarrow> j \<in> set rows0 \<and> Status j = jobStatusWaiting"
  unfolding safe_def by blast

lemma safe_Done:
  "safe rows0 (rows, ws) \<Longrightarrow> Done (j, None) \<in> set ws \<Longrightarrow>
   j \<in> set rows0 \<and> Status j = jobStatusWaiting \<and> (\<exists>t. claimed t j \<in> set rows)"
  unfolding safe_def by blast

lemma safe_exclusive: "safe rows0 (rows, ws) \<Longrightarrow> exclusive ws"
  by (simp add: safe_def)

lemma in_set_update: "w \<in> set (ws[i := w']) \<Longrightarrow> w = w' \<or> w \<in> set ws"
  using set_update_subset_insert [of ws i w'] by blast

lemma exclusive_update_other:
  assumes "exclusive ws" and "\<And>j. w' \<noteq> Done (j, None)"
  shows "exclusive (ws[i := w'])"
  unfolding exclusive_def
proof (intro allI impI)
  fix a b j j'
  assume a: "a < length (ws[i := w'])" and b: "b < length (ws[i := w'])"
    and h: "ws[i := w'] ! a = Done (j, None) \<and> ws[i := w'] ! b = Done (j', None) \<and> Id j = Id j'"
  from h a assms(2) have "a \<noteq> i" by (auto simp: nth_list_update)
  moreover from h b assms(2) have "b \<noteq> i" by (auto simp: nth_list_update)
  ultimately show "a = b" using assms(1) a b h unfolding exclusive_def by simp
qed

lemma exclusive_update_owner:
  assumes "exclusive ws"
    and "\<And>j'. Done (j', None) \<in> set ws \<Longrightarrow> Id j' \<noteq> Id j"
  shows "exclusive (ws[i := Done (j, None)])"
  unfolding exclusive_def
proof (intro allI impI)
  fix a b ja jb
  assume a: "a < length (ws[i := Done (j, None)])" and b: "b < length (ws[i := Done (j, None)])"
    and h: "ws[i := Done (j, None)] ! a = Done (ja, None) \<and>
            ws[i := Done (j, None)] ! b = Done (jb, None) \<and> Id ja = Id jb"
  show "a = b"
  proof (cases "a = i")
    case ai: True
    show ?thesis
    proof (cases "b = i")
      case True
      with ai show ?thesis by simp
    next
      case False
      with h b have wb: "ws ! b = Done (jb, None)" by simp
      with b have "Done (jb, None) \<in> set ws" by (metis length_list_update nth_mem)
      from assms(2) [OF this] h ai a show ?thesis by simp
    qed
  next
    case ai: False
    with h a have wa: "ws ! a = Done (ja, None)" by simp
    show ?thesis
    proof (cases "b = i")
      case True
      from wa a have "Done (ja, None) \<in> set ws" by (metis length_list_update nth_mem)
      from assms(2) [OF this] h True b show ?thesis by simp
    next
      case False
      with h have "ws ! b = Done (jb, None)" by simp
      with wa assms(1) a b h show ?thesis unfolding exclusive_def by simp
    qed
  qed
qed

lemma matched_is_read:
  assumes pk0: "pk_ok rows0" and s: "safe rows0 (rows, ws)"
    and j: "j \<in> set rows0" and x: "x \<in> set rows" "Id x = Id j" "Version x = Version j"
  shows "x = j"
proof -
  from safe_rows [OF s x(1)]
  consider "x \<in> set rows0" | j' t where "j' \<in> set rows0" "x = claimed t j'" by blast
  then show ?thesis
  proof cases
    case 1
    with pk0 show ?thesis using j x(2) by (rule pk_ok_same)
  next
    case 2
    then have "Id j' = Id j" using x(2) by (simp add: claimed_def)
    with pk0 2(1) j have "j' = j" by (rule pk_ok_same)
    with 2(2) x(3) show ?thesis by (simp add: claimed_def)
  qed
qed

lemma safe_pk: "pk_ok rows0 \<Longrightarrow> safe rows0 (rows, ws) \<Longrightarrow> pk_ok rows"
  by (simp add: pk_ok_def safe_ids)

lemma safe_query:
  assumes pk0: "pk_ok rows0" and s: "safe rows0 (rows, ws)" and i: "i < length ws"
    and w: "ws ! i = Start"
  shows "safe rows0 (fst (worker_step now fault rows Start), ws[i := snd (worker_step now fault rows Start)])"
proof (cases "First_due fault now rows")
  case (Inl e)
  have "safe rows0 (rows, ws[i := Done (zero_Job, Some e)])"
  proof (rule safeI)
    show "exclusive (ws[i := Done (zero_Job, Some e)])"
      by (rule exclusive_update_other [OF safe_exclusive [OF s]]) simp
  qed (use s in \<open>auto dest!: in_set_update dest: safe_rows safe_Got safe_Done simp: safe_ids\<close>)
  with Inl show ?thesis by simp
next
  case (Inr j)
  then have jr: "j \<in> set rows" and d: "due now j" by (simp_all add: First_due_Inr)
  from safe_rows [OF s jr] d have j0: "j \<in> set rows0"
    by (auto simp: due_def claimed_def status_defs)
  from d have st: "Status j = jobStatusWaiting" by (simp add: due_def)
  have "safe rows0 (rows, ws[i := Got j now])"
  proof (rule safeI)
    show "exclusive (ws[i := Got j now])"
      by (rule exclusive_update_other [OF safe_exclusive [OF s]]) simp
  qed (use s j0 st in \<open>auto dest!: in_set_update dest: safe_rows safe_Got safe_Done simp: safe_ids\<close>)
  with Inr show ?thesis by simp
qed

lemma safe_update:
  assumes pk0: "pk_ok rows0" and s: "safe rows0 (rows, ws)" and i: "i < length ws"
    and w: "ws ! i = Got j t"
  shows "safe rows0 (fst (worker_step now fault rows (Got j t)),
                     ws[i := snd (worker_step now fault rows (Got j t))])"
proof (cases fault)
  case (Some e)
  have "safe rows0 (rows, ws[i := Done (zero_Job, Some e)])"
  proof (rule safeI)
    show "exclusive (ws[i := Done (zero_Job, Some e)])"
      by (rule exclusive_update_other [OF safe_exclusive [OF s]]) simp
  qed (use s in \<open>auto dest!: in_set_update dest: safe_rows safe_Got safe_Done simp: safe_ids\<close>)
  with Some show ?thesis by (simp add: claim_update_def)
next
  case None
  define p where "p = (\<lambda>r::Job. Id r = Id j \<and> Version r = Version j)"
  define f where "f = (\<lambda>r::Job. r\<lparr>Status := jobStatusRunning, Version := Version j + 1, UpdatedTime := t\<rparr>)"
  define rows2 where "rows2 = fst (Updates p f rows)"
  define n where "n = snd (Updates p f rows)"
  have cu: "claim_update fault j t rows = Inr (rows2, n)"
    by (simp add: None claim_update_def p_def f_def rows2_def n_def)
  from w i have gw: "Got j t \<in> set ws" by (metis nth_mem)
  from safe_Got [OF s gw] have j0: "j \<in> set rows0" and st: "Status j = jobStatusWaiting" by simp_all
  have hit: "x = j" if "x \<in> set rows" "p x" for x
    using that matched_is_read [OF pk0 s j0, of x] by (simp add: p_def)
  have fj: "f j = claimed t j" by (simp add: f_def claimed_def)
  have "Id (if p x then f x else x) = Id x" for x by (simp add: f_def)
  then have "map Id rows2 = map Id rows" by (simp add: rows2_def Updates_def)
  with safe_ids [OF s] have ids: "map Id rows2 = map Id rows0" by simp
  have rows2: "r \<in> set rows0 \<or> (\<exists>j\<in>set rows0. \<exists>t. Status j = jobStatusWaiting \<and> r = claimed t j)"
    if "r \<in> set rows2" for r
  proof -
    from Updates_set [OF that [unfolded rows2_def]]
    show ?thesis
    proof
      assume "\<exists>x\<in>set rows. p x \<and> r = f x"
      then obtain x where "x \<in> set rows" "p x" "r = f x" by blast
      with hit fj have "r = claimed t j" by simp
      with j0 st show ?thesis by blast
    next
      assume "r \<in> set rows \<and> \<not> p r"
      with safe_rows [OF s] show ?thesis by blast
    qed
  qed
  have keep: "\<exists>t'. claimed t' j' \<in> set rows2" if "Done (j', None) \<in> set ws" for j'
  proof -
    from safe_Done [OF s that] obtain t' where j': "j' \<in> set rows0" and c: "claimed t' j' \<in> set rows"
      by blast
    have "\<not> p (claimed t' j')"
    proof
      assume pc: "p (claimed t' j')"
      from hit [OF c pc] have e: "claimed t' j' = j" .
      then have "Id j' = Id j" by (simp add: claimed_def [of t' j'] flip: e)
      with pk0 j' j0 have "j' = j" by (rule pk_ok_same)
      with e have "Version (claimed t' j) = Version j" by simp
      then show False by (simp add: claimed_def)
    qed
    with c have "claimed t' j' \<in> set rows2"
      by (auto simp: rows2_def Updates_def intro!: rev_image_eqI [of "claimed t' j'"])
    then show ?thesis ..
  qed
  show ?thesis
  proof (cases "n = 0")
    case True
    have "safe rows0 (rows2, ws[i := Start])"
    proof (rule safeI)
      show "exclusive (ws[i := Start])"
        by (rule exclusive_update_other [OF safe_exclusive [OF s]]) simp
    qed (use s ids rows2 keep in \<open>auto dest!: in_set_update dest: safe_Got safe_Done\<close>)
    with cu True show ?thesis by simp
  next
    case False
    then obtain x where x: "x \<in> set rows" "p x"
      by (auto simp: n_def Updates_def filter_empty_conv)
    with hit have jr: "j \<in> set rows" and pj: "p j" by auto
    then have cj: "claimed t j \<in> set rows2"
      by (auto simp: rows2_def Updates_def fj [symmetric] intro!: rev_image_eqI [of j])
    have fresh: "Id j' \<noteq> Id j" if "Done (j', None) \<in> set ws" for j'
    proof
      assume e: "Id j' = Id j"
      from safe_Done [OF s that] obtain t' where j': "j' \<in> set rows0" and c: "claimed t' j' \<in> set rows"
        by blast
      from pk0 j' j0 e have "j' = j" by (rule pk_ok_same)
      with c have c': "claimed t' j \<in> set rows" by simp
      have "Id (claimed t' j) = Id j" by (simp add: claimed_def)
      with safe_pk [OF pk0 s] c' jr have "claimed t' j = j" by (rule pk_ok_same)
      then have "Version (claimed t' j) = Version j" by simp
      then show False by (simp add: claimed_def)
    qed
    have "safe rows0 (rows2, ws[i := Done (j, None)])"
    proof (rule safeI)
      show "exclusive (ws[i := Done (j, None)])"
        by (rule exclusive_update_owner [OF safe_exclusive [OF s]]) (rule fresh)
    qed (use s ids rows2 keep cj j0 st in \<open>auto dest!: in_set_update dest: safe_Got safe_Done\<close>)
    with cu False show ?thesis by simp
  qed
qed

lemma safe_step:
  assumes "pk_ok rows0" and "safe rows0 s"
  shows "safe rows0 (sys_step ev s)"
proof -
  obtain i now fault where ev: "ev = (i, now, fault)" by (cases ev)
  obtain rows ws where s: "s = (rows, ws)" by (cases s)
  show ?thesis
  proof (cases "i < length ws")
    case False
    with assms(2) show ?thesis by (simp add: sys_step_def ev s)
  next
    case True
    have "safe rows0 (fst (worker_step now fault rows (ws ! i)),
                      ws[i := snd (worker_step now fault rows (ws ! i))])"
    proof (cases "ws ! i")
      case Start
      with safe_query [OF assms(1) assms(2) [unfolded s] True] show ?thesis by simp
    next
      case (Got j t)
      with safe_update [OF assms(1) assms(2) [unfolded s] True] show ?thesis by simp
    next
      case (Done res)
      then have "ws[i := Done res] = ws" by (metis list_update_id)
      with Done assms(2) show ?thesis by (simp add: s)
    qed
    with True show ?thesis by (auto simp: sys_step_def ev s split: prod.splits)
  qed
qed

lemma safe_init: "safe rows0 (rows0, replicate N Start)"
  by (rule safeI) (simp_all add: exclusive_def)

lemma run_snoc: "run (evs @ [ev]) s = sys_step ev (run evs s)"
  by (simp add: run_def)

lemma safe_run: "pk_ok rows0 \<Longrightarrow> safe rows0 (run evs (rows0, replicate N Start))"
proof (induction evs rule: rev_induct)
  case Nil
  show ?case by (simp add: run_def safe_init)
next
  case (snoc ev evs)
  then show ?case by (simp add: run_snoc safe_step)
qed

lemma length_sys_step: "length (snd (sys_step ev s)) = length (snd s)"
  by (cases ev; cases s) (auto simp: sys_step_def split: prod.splits)

lemma length_run: "length (snd (run evs s)) = length (snd s)"
  by (induction evs rule: rev_induct) (simp_all add: run_def length_sys_step)

lemma in_set_before:
  "w \<in> set ws \<Longrightarrow> w = ws ! i \<or> w \<in> set (ws[i := w'])"
  by (metis in_set_conv_nth length_list_update nth_list_update_neq)

lemma loneI:
  assumes "(\<And>w j. w \<in> set ws \<Longrightarrow> w \<noteq> Done (j, None)) \<Longrightarrow>
             rows = rows0 \<and> (\<forall>w\<in>set ws. \<forall>res. w \<noteq> Done res)"
    and "\<And>j t. Got j t \<in> set ws \<Longrightarrow> j = j0"
    and "\<And>j e. Done (j, e) \<in> set ws \<Longrightarrow>
           (e = None \<and> j = j0) \<or> (e = Some ErrRecordNotFound \<and> j = zero_Job)"
  shows "lone rows0 j0 (rows, ws)"
  using assms unfolding lone_def by simp blast

lemma lone_untouched:
  "lone rows0 j0 (rows, ws) \<Longrightarrow> (\<And>w j. w \<in> set ws \<Longrightarrow> w \<noteq> Done (j, None)) \<Longrightarrow>
   rows = rows0 \<and> (\<forall>w\<in>set ws. \<forall>res. w \<noteq> Done res)"
  unfolding lone_def by simp

lemma lone_Got: "lone rows0 j0 (rows, ws) \<Longrightarrow> Got j t \<in> set ws \<Longrightarrow> j = j0"
  unfolding lone_def by blast

lemma lone_Done:
  "lone rows0 j0 (rows, ws) \<Longrightarrow> Done (j, e) \<in> set ws \<Longrightarrow>
   (e = None \<and> j = j0) \<or> (e = Some ErrRecordNotFound \<and> j = zero_Job)"
  unfolding lone_def by blast

lemma lone_query:
  assumes pk0: "pk_ok rows0" and s: "safe rows0 (rows, ws)" and l: "lone rows0 j0 (rows, ws)"
    and j0: "j0 \<in> set rows0" and one: "\<forall>r\<in>set rows0. due now r \<longleftrightarrow> r = j0"
    and i: "i < length ws" and w: "ws ! i = Start"
  shows "lone rows0 j0 (fst (worker_step now None rows Start),
                        ws[i := snd (worker_step now None rows Start)])"
proof (cases "First_due None now rows")
  case (Inl e)
  from First_due_Inl [OF Inl] have e: "e = ErrRecordNotFound" and nd: "\<forall>r\<in>set rows. \<not> due now r"
    by simp_all
  have "lone rows0 j0 (rows, ws[i := Done (zero_Job, Some ErrRecordNotFound)])"
  proof (rule loneI)
    assume no: "\<And>w j. w \<in> set (ws[i := Done (zero_Job, Some ErrRecordNotFound)]) \<Longrightarrow> w \<noteq> Done (j, None)"
    have "w \<noteq> Done (j, None)" if "w \<in> set ws" for w j
      using in_set_before [OF that, of i "Done (zero_Job, Some ErrRecordNotFound)"] w no by auto
    from lone_untouched [OF l this] have "rows = rows0" by simp
    with nd j0 one have False by blast
    then show "rows = rows0 \<and> (\<forall>w\<in>set (ws[i := Done (zero_Job, Some ErrRecordNotFound)]). \<forall>res. w \<noteq> Done res)" ..
  qed (use l in \<open>auto dest!: in_set_update dest: lone_Got lone_Done\<close>)
  with Inl e show ?thesis by simp
next
  case (Inr j)
  then have jr: "j \<in> set rows" and d: "due now j" by (simp_all add: First_due_Inr)
  from safe_rows [OF s jr] d have "j \<in> set rows0"
    by (auto simp: due_def claimed_def status_defs)
  with one d have jj: "j = j0" by blast
  have "lone rows0 j0 (rows, ws[i := Got j0 now])"
  proof (rule loneI)
    assume no: "\<And>w j. w \<in> set (ws[i := Got j0 now]) \<Longrightarrow> w \<noteq> Done (j, None)"
    have "w \<noteq> Done (j, None)" if "w \<in> set ws" for w j
      using in_set_before [OF that, of i "Got j0 now"] w no by auto
    from lone_untouched [OF l this]
    show "rows = rows0 \<and> (\<forall>w\<in>set (ws[i := Got j0 now]). \<forall>res. w \<noteq> Done res)"
      by (auto dest!: in_set_update)
  qed (use l in \<open>auto dest!: in_set_update dest: lone_Got lone_Done\<close>)
  with Inr jj show ?thesis by simp
qed

lemma lone_update:
  assumes l: "lone rows0 j0 (rows, ws)" and i: "i < length ws" and w: "ws ! i = Got j t"
  shows "lone rows0 j0 (fst (worker_step now None rows (Got j t)),
                        ws[i := snd (worker_step now None rows (Got j t))])"
proof -
  define p where "p = (\<lambda>r::Job. Id r = Id j \<and> Version r = Version j)"
  define f where "f = (\<lambda>r::Job. r\<lparr>Status := jobStatusRunning, Version := Version j + 1, UpdatedTime := t\<rparr>)"
  define rows2 where "rows2 = fst (Updates p f rows)"
  define n where "n = snd (Updates p f rows)"
  have cu: "claim_update None j t rows = Inr (rows2, n)"
    by (simp add: claim_update_def p_def f_def rows2_def n_def)
  from w i have gw: "Got j t \<in> set ws" by (metis nth_mem)
  from lone_Got [OF l gw] have jj: "j = j0" .
  show ?thesis
  proof (cases "n = 0")
    case True
    then have "\<forall>r\<in>set rows. \<not> p r" by (auto simp: n_def Updates_def filter_empty_conv)
    then have same: "rows2 = rows" by (simp add: rows2_def Updates_none)
    have "lone rows0 j0 (rows, ws[i := Start])"
    proof (rule loneI)
      assume no: "\<And>w j. w \<in> set (ws[i := Start]) \<Longrightarrow> w \<noteq> Done (j, None)"
      have "w \<noteq> Done (j, None)" if "w \<in> set ws" for w j
        using in_set_before [OF that, of i Start] w no by auto
      from lone_untouched [OF l this]
      show "rows = rows0 \<and> (\<forall>w\<in>set (ws[i := Start]). \<forall>res. w \<noteq> Done res)"
        by (auto dest!: in_set_update)
    qed (use l in \<open>auto dest!: in_set_update dest: lone_Got lone_Done\<close>)
    with cu True same show ?thesis by simp
  next
    case False
    have "lone rows0 j0 (rows2, ws[i := Done (j0, None)])"
    proof (rule loneI)
      assume no: "\<And>w j. w \<in> set (ws[i := Done (j0, None)]) \<Longrightarrow> w \<noteq> Done (j, None)"
      from i have "Done (j0, None) \<in> set (ws[i := Done (j0, None)])"
        by (simp add: set_update_memI)
      from no [OF this, of j0] have False by simp
      then show "rows2 = rows0 \<and> (\<forall>w\<in>set (ws[i := Done (j0, None)]). \<forall>res. w \<noteq> Done res)" ..
    qed (use l in \<open>auto dest!: in_set_update dest: lone_Got lone_Done\<close>)
    with cu False jj show ?thesis by simp
  qed
qed

lemma lone_step:
  assumes "pk_ok rows0" and "safe rows0 s" and "lone rows0 j0 s" and "j0 \<in> set rows0"
    and "\<forall>r\<in>set rows0. due now r \<longleftrightarrow> r = j0"
  shows "lone rows0 j0 (sys_step (i, now, None) s)"
proof -
  obtain rows ws where s: "s = (rows, ws)" by (cases s)
  show ?thesis
  proof (cases "i < length ws")
    case False
    with assms(3) show ?thesis by (simp add: sys_step_def s)
  next
    case True
    have "lone rows0 j0 (fst (worker_step now None rows (ws ! i)),
                      ws[i := snd (worker_step now None rows (ws ! i))])"
    proof (cases "ws ! i")
      case Start
      with lone_query [OF assms(1) assms(2) [unfolded s] assms(3) [unfolded s] assms(4,5) True]
      show ?thesis by simp
    next
      case (Got j t)
      with lone_update [OF assms(3) [unfolded s] True] show ?thesis by simp
    next
      case (Done res)
      then have "ws[i := Done res] = ws" by (metis list_update_id)
      with Done assms(3) show ?thesis by (simp add: s)
    qed
    with True show ?thesis by (auto simp: sys_step_def s split: prod.splits)
  qed
qed

lemma lone_init: "lone rows0 j0 (rows0, replicate N Start)"
  by (rule loneI) auto

lemma lone_run:
  assumes "pk_ok rows0" and "j0 \<in> set rows0"
    and "\<forall>(i, now, fault)\<in>set evs. fault = None \<and> (\<forall>r\<in>set rows0. due now r \<longleftrightarrow> r = j0)"
  shows "lone rows0 j0 (run evs (rows0, replicate N Start))"
  using assms(3)
proof (induction evs rule: rev_induct)
  case Nil
  show ?case by (simp add: run_def lone_init)
next
  case (snoc ev evs)
  obtain i now fault where ev: "ev = (i, now, fault)" by (cases ev)
  from snoc.prems ev have f: "fault = None" and one: "\<forall>r\<in>set rows0. due now r \<longleftrightarrow> r = j0"
    by auto
  from snoc have l: "lone rows0 j0 (run evs (rows0, replicate N Start))" by simp
  from lone_step [OF assms(1) safe_run [OF assms(1)] l assms(2) one]
  show ?case by (simp add: run_snoc ev f)
qed

text \<open>
  The two models agree on a session that runs alone: its two statements, taken as two
  steps of the schedule, leave what one iteration of \<open>Preempt\<close> returns.
\<close>

lemma alone_run_is_Preempt:
  "\<exists>res rows'. run [(0, now, f1), (0, later, f2)] (rows, [Start]) = (rows', [Done res]) \<and>
     Preempt (\<lambda>k. \<lparr>clock = now, select_fault = f1, between = (\<lambda>rows. rows),
       update_fault = f2, afterwards = (\<lambda>rows. rows)\<rparr>) 0 rows = Some (res, rows')"
proof (cases "First_due f1 now rows")
  case (Inl e)
  then show ?thesis
    by (simp add: Preempt_undisturbed run_def sys_step_def)
next
  case (Inr j)
  then have j: "j \<in> set rows" by (simp add: First_due_Inr)
  show ?thesis
  proof (cases "claim_update f2 j now rows")
    case (Inl e)
    with Inr show ?thesis by (simp add: Preempt_undisturbed run_def sys_step_def)
  next
    case u: (Inr u)
    obtain rows2 n where un: "u = (rows2, n)" by (cases u)
    from u un j have "n \<noteq> 0"
      by (auto simp: claim_update_def Updates_def filter_empty_conv split: option.splits)
    with Inr u un show ?thesis by (simp add: Preempt_undisturbed run_def sys_step_def)
  qed
qed

text \<open>
  Progress: with one due job and a store that answers, a session returns within three
  of its own statements, whatever the other sessions do in between.
\<close>

lemma is_owner_iff: "is_owner w \<longleftrightarrow> (\<exists>j. w = Done (j, None))"
  by (cases w rule: is_owner.cases) simp_all

lemma no_owner_iff: "\<not> has_owner ws \<longleftrightarrow> (\<forall>w\<in>set ws. \<forall>j. w \<noteq> Done (j, None))"
  by (auto simp: has_owner_def is_owner_iff)

lemma todo_mono: "todo True w \<le> todo False w"
  by (cases w) simp_all

lemma todo_0: "todo own w = 0 \<Longrightarrow> \<exists>res. w = Done res"
  by (cases w) (simp_all split: if_splits)

lemma worker_step_Done: "worker_step now fault rows (Done res) = (rows, Done res)"
  by simp

lemma has_owner_update:
  assumes "has_owner ws" and "i < length ws" and "is_owner (ws ! i) \<Longrightarrow> is_owner w'"
  shows "has_owner (ws[i := w'])"
proof -
  from assms(1) obtain m where m: "m < length ws" "is_owner (ws ! m)"
    by (auto simp: has_owner_def in_set_conv_nth)
  show ?thesis
  proof (cases "m = i")
    case True
    with m assms(3) have "is_owner w'" by simp
    moreover from assms(2) have "w' \<in> set (ws[i := w'])" by (simp add: set_update_memI)
    ultimately show ?thesis unfolding has_owner_def by blast
  next
    case False
    with m have "ws[i := w'] ! m = ws ! m" "m < length (ws[i := w'])" by simp_all
    with m(2) have "\<exists>w\<in>set (ws[i := w']). is_owner w" by (metis nth_mem)
    then show ?thesis by (simp add: has_owner_def)
  qed
qed

lemma owned_not_found:
  assumes pk0: "pk_ok rows0" and s: "safe rows0 (rows, ws)" and l: "lone rows0 j0 (rows, ws)"
    and one: "\<forall>r\<in>set rows0. due now r \<longleftrightarrow> r = j0" and own: "has_owner ws"
  shows "First_due None now rows = Inl ErrRecordNotFound"
proof (cases "First_due None now rows")
  case (Inl e)
  with First_due_Inl [OF Inl] show ?thesis by simp
next
  case (Inr c)
  then have cr: "c \<in> set rows" and d: "due now c" by (simp_all add: First_due_Inr)
  from safe_rows [OF s cr] d have "c \<in> set rows0"
    by (auto simp: due_def claimed_def status_defs)
  with one d have c: "c = j0" by blast
  from own obtain j where o: "Done (j, None) \<in> set ws"
    by (auto simp: has_owner_def is_owner_iff)
  from lone_Done [OF l o] have "j = j0" by simp
  with safe_Done [OF s o] obtain t where "claimed t j0 \<in> set rows" by blast
  moreover have "Id (claimed t j0) = Id j0" by (simp add: claimed_def)
  ultimately have "claimed t j0 = j0"
    using safe_pk [OF pk0 s] cr c by (auto dest: pk_ok_same)
  then have "Version (claimed t j0) = Version j0" by simp
  then show ?thesis by (simp add: claimed_def)
qed

lemma todo_step:
  assumes pk0: "pk_ok rows0" and s: "safe rows0 (rows, ws)" and l: "lone rows0 j0 (rows, ws)"
    and j0: "j0 \<in> set rows0" and one: "\<forall>r\<in>set rows0. due now r \<longleftrightarrow> r = j0"
    and step: "sys_step (i, now, None) (rows, ws) = (rows', ws')" and k: "k < length ws"
  shows "todo (has_owner ws') (ws' ! k) \<le> todo (has_owner ws) (ws ! k) - (if k = i then 1 else 0)"
proof (cases "i < length ws")
  case False
  with step k show ?thesis by (auto simp: sys_step_def)
next
  case i: True
  obtain r2 w' where ws: "worker_step now None rows (ws ! i) = (r2, w')"
    by (cases "worker_step now None rows (ws ! i)")
  with step i have ws': "ws' = ws[i := w']" by (simp add: sys_step_def)
  have keep: "is_owner (ws ! i) \<Longrightarrow> is_owner w'"
    using ws by (cases "ws ! i") auto
  have mono: "has_owner ws'" if "has_owner ws"
    unfolding ws' using that i keep by (rule has_owner_update)
  have le: "todo (has_owner ws') w \<le> todo (has_owner ws) w" for w
    using mono todo_mono [of w] by (cases "has_owner ws"; cases "has_owner ws'") simp_all
  show ?thesis
  proof (cases "k = i")
    case False
    with k have "ws' ! k = ws ! k" by (simp add: ws')
    with False le show ?thesis by simp
  next
    case True
    with i have wk: "ws' ! k = w'" by (simp add: ws')
    show ?thesis
    proof (cases "ws ! i")
      case Start
      show ?thesis
      proof (cases "has_owner ws")
        case own: True
        from owned_not_found [OF pk0 s l one own] Start ws have "w' = Done (zero_Job, Some ErrRecordNotFound)"
          by simp
        with wk show ?thesis by simp
      next
        case own: False
        then have "\<And>w j. w \<in> set ws \<Longrightarrow> w \<noteq> Done (j, None)" by (simp add: no_owner_iff)
        from lone_untouched [OF l this] have "rows = rows0" by simp
        with j0 one have "\<exists>c. First_due None now rows = Inr c"
          by (intro First_due_finds [of j0]) auto
        then obtain c where "First_due None now rows = Inr c" ..
        with Start ws have "w' = Got c now" by simp
        with wk True Start own show ?thesis by simp
      qed
    next
      case (Got j t)
      with i have gw: "Got j t \<in> set ws" by (metis nth_mem)
      obtain rows2 n where cu: "claim_update None j t rows = Inr (rows2, n)"
        by (cases "Updates (\<lambda>r. Id r = Id j \<and> Version r = Version j)
              (\<lambda>r. r\<lparr>Status := jobStatusRunning, Version := Version j + 1, UpdatedTime := t\<rparr>) rows")
          (simp add: claim_update_def)
      show ?thesis
      proof (cases "n = 0")
        case n0: True
        with cu Got ws have w': "w' = Start" by simp
        have "has_owner ws"
        proof (rule ccontr)
          assume "\<not> has_owner ws"
          then have "\<And>w j. w \<in> set ws \<Longrightarrow> w \<noteq> Done (j, None)" by (simp add: no_owner_iff)
          from lone_untouched [OF l this] have "rows = rows0" by simp
          with safe_Got [OF s gw] have "j \<in> set rows" by simp
          with cu have "n \<noteq> 0"
            by (auto simp: claim_update_def Updates_def filter_empty_conv)
          with n0 show False by simp
        qed
        then have "has_owner ws'" by (rule mono)
        with wk w' True Got show ?thesis by simp
      next
        case False
        with cu Got ws have "w' = Done (j, None)" by simp
        with wk show ?thesis by simp
      qed
    next
      case (Done res)
      with ws have "w' = Done res" by simp
      with wk show ?thesis by simp
    qed
  qed
qed

lemma turns_snoc: "turns k (evs @ [ev]) = turns k evs + (if fst ev = k then 1 else 0)"
  by (simp add: turns_def)

lemma todo_run:
  assumes pk0: "pk_ok rows0" and j0: "j0 \<in> set rows0"
    and calm: "\<forall>(i, now, fault)\<in>set evs. fault = None \<and> (\<forall>r\<in>set rows0. due now r \<longleftrightarrow> r = j0)"
    and k: "k < N"
  shows "todo (has_owner (snd (run evs (rows0, replicate N Start))))
           (snd (run evs (rows0, replicate N Start)) ! k) \<le> 3 - turns k evs"
  using calm
proof (induction evs rule: rev_induct)
  case Nil
  from k show ?case by (simp add: run_def turns_def has_owner_def)
next
  case (snoc ev evs)
  obtain i now fault where ev: "ev = (i, now, fault)" by (cases ev)
  from snoc.prems ev have f: "fault = None" and one: "\<forall>r\<in>set rows0. due now r \<longleftrightarrow> r = j0"
    by auto
  from snoc.prems
  have calm': "\<forall>(i, now, fault)\<in>set evs. fault = None \<and> (\<forall>r\<in>set rows0. due now r \<longleftrightarrow> r = j0)"
    by simp
  obtain rows ws where s: "run evs (rows0, replicate N Start) = (rows, ws)"
    by (cases "run evs (rows0, replicate N Start)")
  obtain rows' ws' where s': "sys_step (i, now, None) (rows, ws) = (rows', ws')"
    by (cases "sys_step (i, now, None) (rows, ws)")
  from safe_run [OF pk0, of evs N] s have sf: "safe rows0 (rows, ws)" by simp
  from lone_run [OF pk0 j0 calm', of N] s have ln: "lone rows0 j0 (rows, ws)" by simp
  from length_run [of evs "(rows0, replicate N Start)"] s have len: "length ws = N" by simp
  with k have k': "k < length ws" by simp
  from snoc.IH [OF calm'] s have IH: "todo (has_owner ws) (ws ! k) \<le> 3 - turns k evs" by simp
  from todo_step [OF pk0 sf ln j0 one s' k']
  have "todo (has_owner ws') (ws' ! k) \<le> todo (has_owner ws) (ws ! k) - (if k = i then 1 else 0)" .
  with IH have "todo (has_owner ws') (ws' ! k) \<le> 3 - turns k (evs @ [ev])"
    by (auto simp: turns_snoc ev)
  then show ?case by (simp add: run_snoc s ev f s')
qed

lemma all_return:
  assumes "pk_ok rows0" and "j0 \<in> set rows0"
    and "\<forall>(i, now, fault)\<in>set evs. fault = None \<and> (\<forall>r\<in>set rows0. due now r \<longleftrightarrow> r = j0)"
    and "run evs (rows0, replicate N Start) = (rows, ws)"
    and "k < N" and "3 \<le> turns k evs"
  shows "\<exists>res. ws ! k = Done res"
proof -
  from todo_run [OF assms(1,2,3,5)] assms(4,6) have "todo (has_owner ws) (ws ! k) = 0" by simp
  then show ?thesis by (rule todo_0)
qed

lemma filter_key_le_1:
  "distinct (map f xs) \<Longrightarrow> length (filter (\<lambda>x. f x = a \<and> q x) xs) \<le> 1"
proof (induction xs)
  case Nil
  show ?case by simp
next
  case (Cons x xs)
  show ?case
  proof (cases "f x = a")
    case True
    with Cons.prems have "\<forall>y\<in>set xs. f y \<noteq> a" by (auto simp: image_iff)
    then have "filter (\<lambda>x. f x = a \<and> q x) xs = []" by (simp add: filter_empty_conv)
    then show ?thesis by simp
  next
    case False
    with Cons show ?thesis by simp
  qed
qed

lemma claim_update_once:
  assumes "pk_ok rows1" and "claim_update None j t rows1 = Inr (rows2, n)"
  shows "n \<le> 1 \<and> claim_update None j t' rows2 = Inr (rows2, 0)"
proof -
  from assms(2) have "n = length (filter (\<lambda>r. Id r = Id j \<and> Version r = Version j) rows1)"
    by (auto simp: claim_update_def Updates_def)
  with assms(1) have "n \<le> 1"
    using filter_key_le_1 [of Id rows1 "Id j" "\<lambda>r. Version r = Version j"]
    by (simp add: pk_ok_def)
  moreover have "\<forall>r\<in>set rows2. \<not> (Id r = Id j \<and> Version r = Version j)"
    using assms(2) by (auto simp: claim_update_def Updates_def split: if_splits)
  then have "claim_update None j t' rows2 = Inr (rows2, 0)"
    by (simp add: claim_update_def Updates_none)
  ultimately show ?thesis by simp
qed

lemma two_sessions_run:
  "run [(0, 100, None), (1, 100, None), (1, 100, None), (0, 100, None), (0, 101, None),
        (1, 101, None)]
     ([row 1 0 5 50 0], replicate 2 Start) =
   ([row 1 1 6 50 100],
    [Done (zero_Job, Some ErrRecordNotFound), Done (row 1 0 5 50 0, None)])"
  by (simp add: run_def sys_step_def run_defs numeral_2_eq_2)

section \<open>Candidate selection\<close>

text \<open>
  C8 (as amended). When the store answers, the query of \<open>Preempt\<close> returns a row of the
  table with status Waiting and \<open>next_time\<close> strictly before now, and among all such rows
  the one with the least id; when there is no such row it returns \<open>ErrRecordNotFound\<close>.
\<close>

theorem First_due_selects:
  "(case First_due None now rows of
      Inr j \<Rightarrow> j \<in> set rows \<and> Status j = jobStatusWaiting \<and> NextTime j <s now \<and>
        (\<forall>r\<in>set rows. Status r = jobStatusWaiting \<and> NextTime r <s now \<longrightarrow> Id j \<le>s Id r)
    | Inl e \<Rightarrow> e = ErrRecordNotFound \<and>
        (\<forall>r\<in>set rows. \<not> (Status r = jobStatusWaiting \<and> NextTime r <s now)))"
proof (cases "First_due None now rows")
  case (Inl e)
  from First_due_Inl [OF Inl] show ?thesis
    by (simp add: Inl due_def)
next
  case (Inr j)
  from First_due_Inr [OF Inr] First_due_least [OF Inr] show ?thesis
    by (simp add: Inr due_def)
qed

theorem First_due_selects_witness:
  "row 2 0 0 10 0 \<in> set [row 1 0 0 50 0, row 2 0 0 10 0] \<and>
   Status (row 2 0 0 10 0) = jobStatusWaiting \<and> NextTime (row 2 0 0 10 0) <s 100 \<and>
   First_due None 100 [row 1 0 0 50 0, row 2 0 0 10 0] = Inr (row 1 0 0 50 0) \<and>
   Id (row 1 0 0 50 0) \<le>s Id (row 2 0 0 10 0) \<and>
   First_due None 100 [row 1 2 0 50 0, row 2 0 0 100 0] = Inl ErrRecordNotFound"
  using First_due_selects [where now = 100 and rows = "[row 1 0 0 50 0, row 2 0 0 10 0]"]
    First_due_selects [where now = 100 and rows = "[row 1 2 0 50 0, row 2 0 0 100 0]"]
  by (simp add: run_defs)

text \<open>
  C8 as stated fails twice: of two due rows the query returns id 1, due at 50, although
  id 2 is due earlier, at 10; and a Waiting row with \<open>next_time\<close> equal to now, which
  satisfies \<open>next_time \<le> now\<close>, is not found.
\<close>

theorem First_due_not_earliest_counterexample:
  "First_due None 100 [row 1 0 0 50 0, row 2 0 0 10 0] = Inr (row 1 0 0 50 0) \<and>
   Status (row 2 0 0 10 0) = jobStatusWaiting \<and> NextTime (row 2 0 0 10 0) \<le>s 100 \<and>
   NextTime (row 2 0 0 10 0) <s NextTime (row 1 0 0 50 0) \<and>
   First_due None 100 [row 3 0 0 100 0] = Inl ErrRecordNotFound \<and>
   Status (row 3 0 0 100 0) = jobStatusWaiting \<and> NextTime (row 3 0 0 100 0) \<le>s 100"
  by (simp add: run_defs)

section \<open>The boundary of being due\<close>

text \<open>
  C9. A Waiting job is not claimable at the instant now equals its \<open>next_time\<close>: the
  query never returns it, and \<open>Preempt\<close> on a table that holds only this job finds no
  candidate. The query returns it exactly when now is strictly after \<open>next_time\<close>.
\<close>

theorem not_claimable_at_next_time:
  assumes "Status j = jobStatusWaiting"
    and "clock (env k) = now" and "select_fault (env k) = None"
  shows "(NextTime j = now \<longrightarrow>
            Preempt env k [j] = Some ((zero_Job, Some ErrRecordNotFound), [j]) \<and>
            (\<forall>rows. First_due None now rows \<noteq> Inr j)) \<and>
         (First_due None now [j] = Inr j \<longleftrightarrow> NextTime j <s now)"
proof -
  have a: "First_due None now [j] = Inl ErrRecordNotFound" if "NextTime j = now"
    using that by (simp add: First_due_def due_def)
  have b: "First_due None now rows \<noteq> Inr j" if "NextTime j = now" for rows
    using that First_due_Inr [of None now rows j] by (auto simp: due_def)
  have c: "Preempt env k [j] = Some ((zero_Job, Some ErrRecordNotFound), [j])" if "NextTime j = now"
    by (subst Preempt.simps) (simp add: a [OF that] assms)
  have d: "First_due None now [j] = Inr j \<longleftrightarrow> NextTime j <s now"
    using assms(1) by (simp add: First_due_def due_def)
  from b c d show ?thesis by blast
qed

theorem not_claimable_at_next_time_witness:
  "Status (row 1 0 5 100 0) = jobStatusWaiting \<and> clock (quiet 100) = 100 \<and>
   select_fault (quiet 100) = None \<and> NextTime (row 1 0 5 100 0) = 100 \<and>
   Preempt (\<lambda>k. quiet 100) 0 [row 1 0 5 100 0] =
     Some ((zero_Job, Some ErrRecordNotFound), [row 1 0 5 100 0]) \<and>
   First_due None 100 [row 1 0 5 100 0] \<noteq> Inr (row 1 0 5 100 0) \<and>
   NextTime (row 1 0 5 100 0) <s 101 \<and>
   First_due None 101 [row 1 0 5 100 0] = Inr (row 1 0 5 100 0)"
proof -
  have h: "Status (row 1 0 5 100 0) = jobStatusWaiting" "clock (quiet 100) = 100"
    "clock (quiet 101) = 101" "select_fault (quiet 100) = None" "select_fault (quiet 101) = None"
    "NextTime (row 1 0 5 100 0) = 100" "NextTime (row 1 0 5 100 0) <s 101"
    by (simp_all add: run_defs)
  from not_claimable_at_next_time [of "row 1 0 5 100 0" "\<lambda>k. quiet 100" 0 100]
    not_claimable_at_next_time [of "row 1 0 5 100 0" "\<lambda>k. quiet 101" 0 101] h
  show ?thesis by simp
qed

section \<open>What Preempt returns\<close>




section \<open>Termination of Preempt\<close>

text \<open>
  C3 (as amended). \<open>Preempt\<close> has no maximum attempt count and no Contention result:
  after a compare-and-swap that affects no row, whatever the number of the iteration, it
  goes on with the next iteration. It returns if some iteration meets no write of another
  session between its query and its update, in particular when it runs alone.
\<close>

theorem Preempt_retries_without_bound:
  "(\<forall>j rows2.
      First_due (select_fault (env k)) (clock (env k)) rows = Inr j \<and>
      claim_update (update_fault (env k)) j (clock (env k)) (between (env k) rows) = Inr (rows2, 0) \<longrightarrow>
      Preempt env k rows = Preempt env (Suc k) (afterwards (env k) rows2)) \<and>
   (between (env (k + n)) = (\<lambda>rows. rows) \<longrightarrow> (\<exists>y. Preempt env k rows = Some y))"
proof -
  have retry: "Preempt env k rows = Preempt env (Suc k) (afterwards (env k) rows2)"
    if "First_due (select_fault (env k)) (clock (env k)) rows = Inr j"
      and "claim_update (update_fault (env k)) j (clock (env k)) (between (env k) rows) = Inr (rows2, 0)"
    for j rows2
    using that by (subst Preempt.simps) simp
  have returns: "\<exists>y. Preempt env k rows = Some y" if "between (env (k + n)) = (\<lambda>rows. rows)"
    using that
  proof (induction n arbitrary: k rows)
    case 0
    then have "between (env k) rows = rows" by simp
    then show ?case by (rule Preempt_undisturbed_Some)
  next
    case (Suc n)
    then have *: "\<exists>y. Preempt env (Suc k) rows' = Some y" for rows' by simp
    show ?case
    proof (cases "First_due (select_fault (env k)) (clock (env k)) rows")
      case (Inl e)
      then show ?thesis by (subst Preempt.simps) simp
    next
      case (Inr j)
      show ?thesis
      proof (cases "claim_update (update_fault (env k)) j (clock (env k)) (between (env k) rows)")
        case (Inl e)
        with Inr show ?thesis by (subst Preempt.simps) simp
      next
        case u: (Inr u)
        obtain rows2 a where un: "u = (rows2, a)" by (cases u)
        from * [of "afterwards (env k) rows2"] Inr u un show ?thesis
          by (subst Preempt.simps) simp
      qed
    qed
  qed
  from retry returns show ?thesis by blast
qed

theorem Preempt_retries_without_bound_witness:
  "First_due (select_fault (one_rival 100 0)) (clock (one_rival 100 0)) [row 1 0 5 50 0] =
     Inr (row 1 0 5 50 0) \<and>
   claim_update (update_fault (one_rival 100 0)) (row 1 0 5 50 0) (clock (one_rival 100 0))
     (between (one_rival 100 0) [row 1 0 5 50 0]) = Inr ([row 1 0 6 50 100], 0) \<and>
   between (one_rival 100 (0 + 1)) = (\<lambda>rows. rows) \<and>
   Preempt (one_rival 100) 0 [row 1 0 5 50 0] =
     Some ((row 1 0 6 50 100, None), [row 1 1 7 50 100])"
proof -
  have r: "rival 100 [row 1 0 5 50 0] = [row 1 0 6 50 100]"
    by (subst rival_single) (simp_all add: row_def status_defs word_sless_alt)
  have a: "First_due (select_fault (one_rival 100 0)) (clock (one_rival 100 0)) [row 1 0 5 50 0] =
     Inr (row 1 0 5 50 0)"
    by (simp add: one_rival_def contended_def run_defs)
  have b: "claim_update (update_fault (one_rival 100 0)) (row 1 0 5 50 0) (clock (one_rival 100 0))
     (between (one_rival 100 0) [row 1 0 5 50 0]) = Inr ([row 1 0 6 50 100], 0)"
    by (simp add: one_rival_def contended_def r) (simp add: run_defs)
  have c: "between (one_rival 100 (0 + 1)) = (\<lambda>rows. rows)"
    by (simp add: one_rival_def quiet_def)
  have d: "afterwards (one_rival 100 0) [row 1 0 6 50 100] = [row 1 0 6 50 100]"
    by (simp add: one_rival_def contended_def)
  have e: "Preempt (one_rival 100) (Suc 0) [row 1 0 6 50 100] =
     Some ((row 1 0 6 50 100, None), [row 1 1 7 50 100])"
    by (subst Preempt.simps) (simp add: one_rival_def run_defs)
  from Preempt_retries_without_bound [of "one_rival 100" 0 "[row 1 0 5 50 0]" 1] a b c
  have "Preempt (one_rival 100) 0 [row 1 0 5 50 0] =
     Preempt (one_rival 100) (Suc 0) (afterwards (one_rival 100 0) [row 1 0 6 50 100])"
    by blast
  with a b c d e show ?thesis by simp
qed

text \<open>
  C3 as stated fails: while a rival session claims the job and hands it back between each
  query and update of the call, every compare-and-swap of the call affects no row and the
  call never returns.
\<close>

theorem Preempt_livelock_counterexample:
  "Preempt (\<lambda>k. contended 100) 0 [row 1 0 5 50 0] = None"
proof -
  have "False" if "Preempt env k rows = Some y" and "env = (\<lambda>k. contended 100)"
     and "\<exists>v u. rows = [row 1 0 v 50 u]" for env k rows y
    using that
  proof (induct rule: Preempt_induct)
    case (1 f env k rows y)
    from "1.prems" obtain v u where rows: "rows = [row 1 0 v 50 u]" by blast
    have d: "First_due None 100 [row 1 0 v 50 u] = Inr (row 1 0 v 50 u)"
      by (simp add: run_defs)
    have b: "rival 100 [row 1 0 v 50 u] = [row 1 0 (v + 1) 50 100]"
      by (subst rival_single) (simp_all add: row_def status_defs word_sless_alt)
    have c: "claim_update None (row 1 0 v 50 u) 100 [row 1 0 (v + 1) 50 100] = Inr ([row 1 0 (v + 1) 50 100], 0)"
      by (simp add: claim_update_def Updates_def row_def)
    from "1.hyps"(2) have "f env (Suc k) [row 1 0 (v + 1) 50 100] = Some y"
      by (simp add: rows "1.prems"(1) contended_def d b c)
    then show ?case using "1.prems"(1) by (rule "1.hyps"(1)) blast
  qed
  then show ?thesis by (cases "Preempt (\<lambda>k. contended 100) 0 [row 1 0 5 50 0]") blast+
qed

section \<open>Release and reschedule\<close>

text \<open>
  C4 (as amended). The release step is not one conditional write. \<open>Release\<close> writes status
  Waiting and \<open>updated_at\<close> on every row with the given id, and \<open>UpdateNextTime\<close>
  writes \<open>next_time\<close> and \<open>updated_at\<close> on every row with the given id. Each is a
  statement of its own, keyed on the id alone: a row with the id is rewritten whatever
  its version, a row with another id is left as it was, and neither statement reads or
  writes the version. So \<open>Release\<close> leaves \<open>next_time\<close> as it was and
  \<open>UpdateNextTime\<close> leaves the status as it was.
\<close>

theorem release_and_reschedule_separate:
  "(let rows' = fst (Release None now jid rows) in
      snd (Release None now jid rows) = None \<and>
      map NextTime rows' = map NextTime rows \<and> map Version rows' = map Version rows \<and>
      (\<forall>r\<in>set rows. Id r = jid \<longrightarrow> r\<lparr>Status := jobStatusWaiting, UpdatedTime := now\<rparr> \<in> set rows') \<and>
      length rows' = length rows \<and>
      (\<forall>k<length rows. rows' ! k =
         (if Id (rows ! k) = jid then (rows ! k)\<lparr>Status := jobStatusWaiting, UpdatedTime := now\<rparr>
          else rows ! k))) \<and>
   (let rows' = fst (UpdateNextTime None now jid t rows) in
      snd (UpdateNextTime None now jid t rows) = None \<and>
      map Status rows' = map Status rows \<and> map Version rows' = map Version rows \<and>
      (\<forall>r\<in>set rows. Id r = jid \<longrightarrow> r\<lparr>UpdatedTime := now, NextTime := t\<rparr> \<in> set rows') \<and>
      length rows' = length rows \<and>
      (\<forall>k<length rows. rows' ! k =
         (if Id (rows ! k) = jid then (rows ! k)\<lparr>UpdatedTime := now, NextTime := t\<rparr>
          else rows ! k)))"
proof -
  have a: "snd (Release None now jid rows) = None" "snd (UpdateNextTime None now jid t rows) = None"
    by (simp_all add: Release_def UpdateNextTime_def)
  have b: "map NextTime (fst (Release None now jid rows)) = map NextTime rows"
    "map Version (fst (Release None now jid rows)) = map Version rows"
    "map Status (fst (UpdateNextTime None now jid t rows)) = map Status rows"
    "map Version (fst (UpdateNextTime None now jid t rows)) = map Version rows"
    by (simp_all add: Release_keeps UpdateNextTime_keeps)
  have c: "\<forall>r\<in>set rows. Id r = jid \<longrightarrow>
      r\<lparr>Status := jobStatusWaiting, UpdatedTime := now\<rparr> \<in> set (fst (Release None now jid rows))"
    "\<forall>r\<in>set rows. Id r = jid \<longrightarrow>
      r\<lparr>UpdatedTime := now, NextTime := t\<rparr> \<in> set (fst (UpdateNextTime None now jid t rows))"
    by (simp_all add: Release_member UpdateNextTime_member)
  note d = Release_nth [of now jid rows] UpdateNextTime_nth [of now jid t rows]
  from a b c d show ?thesis unfolding Let_def by blast
qed

theorem release_and_reschedule_separate_witness:
  "fst (Release None 200 1 [row 1 1 6 50 100, row 2 1 3 70 100]) =
     [row 1 0 6 50 200, row 2 1 3 70 100] \<and>
   fst (UpdateNextTime None 200 1 300 [row 1 1 6 50 100, row 2 1 3 70 100]) =
     [row 1 1 6 300 200, row 2 1 3 70 100] \<and>
   Id ([row 1 1 6 50 100, row 2 1 3 70 100] ! 0) = 1 \<and>
   Id ([row 1 1 6 50 100, row 2 1 3 70 100] ! 1) \<noteq> 1 \<and>
   fst (Release None 200 1 [row 1 1 6 50 100, row 2 1 3 70 100]) ! 1 = row 2 1 3 70 100 \<and>
   fst (UpdateNextTime None 200 1 300 [row 1 1 6 50 100, row 2 1 3 70 100]) ! 1 = row 2 1 3 70 100"
proof -
  have e: "fst (Release None 200 1 [row 1 1 6 50 100, row 2 1 3 70 100]) =
     [row 1 0 6 50 200, row 2 1 3 70 100]"
    "fst (UpdateNextTime None 200 1 300 [row 1 1 6 50 100, row 2 1 3 70 100]) =
     [row 1 1 6 300 200, row 2 1 3 70 100]"
    "Id ([row 1 1 6 50 100, row 2 1 3 70 100] ! 0) = 1"
    "Id ([row 1 1 6 50 100, row 2 1 3 70 100] ! 1) \<noteq> 1"
    by (simp_all add: Release_def UpdateNextTime_def run_defs)
  note t = release_and_reschedule_separate [where now = 200 and jid = 1
      and rows = "[row 1 1 6 50 100, row 2 1 3 70 100]" and t = 300, unfolded Let_def]
  from t have "\<forall>k<length [row 1 1 6 50 100, row 2 1 3 70 100].
      fst (Release None 200 1 [row 1 1 6 50 100, row 2 1 3 70 100]) ! k =
         (if Id ([row 1 1 6 50 100, row 2 1 3 70 100] ! k) = 1
          then ([row 1 1 6 50 100, row 2 1 3 70 100] ! k)\<lparr>Status := jobStatusWaiting, UpdatedTime := 200\<rparr>
          else [row 1 1 6 50 100, row 2 1 3 70 100] ! k)"
    by blast
  from this [rule_format, of 1] e(4)
  have f: "fst (Release None 200 1 [row 1 1 6 50 100, row 2 1 3 70 100]) ! 1 = row 2 1 3 70 100"
    by simp
  from t have "\<forall>k<length [row 1 1 6 50 100, row 2 1 3 70 100].
      fst (UpdateNextTime None 200 1 300 [row 1 1 6 50 100, row 2 1 3 70 100]) ! k =
         (if Id ([row 1 1 6 50 100, row 2 1 3 70 100] ! k) = 1
          then ([row 1 1 6 50 100, row 2 1 3 70 100] ! k)\<lparr>UpdatedTime := 200, NextTime := 300\<rparr>
          else [row 1 1 6 50 100, row 2 1 3 70 100] ! k)"
    by blast
  from this [rule_format, of 1] e(4)
  have g: "fst (UpdateNextTime None 200 1 300 [row 1 1 6 50 100, row 2 1 3 70 100]) ! 1 = row 2 1 3 70 100"
    by simp
  show ?thesis by (intro conjI e f g)
qed

text \<open>
  C4 as stated fails: releasing the Running row of version 6 leaves version 6 and the old
  \<open>next_time\<close>, a state in which the status is written and \<open>next_time\<close> is not; the
  reschedule is a second write; and a release sent while the row has version 7 is applied
  all the same.
\<close>

theorem release_not_single_write_counterexample:
  "Release None 200 1 [row 1 1 6 50 100] = ([row 1 0 6 50 200], None) \<and>
   UpdateNextTime None 200 1 300 [row 1 1 6 50 100] = ([row 1 1 6 300 200], None) \<and>
   Release None 200 1 [row 1 1 7 50 100] = ([row 1 0 7 50 200], None)"
  by (simp add: Release_def UpdateNextTime_def run_defs)

section \<open>Which writes carry the version\<close>

text \<open>
  C5 (as amended). Only the claim of \<open>Preempt\<close> writes the version: every row it matches
  gets status Running, \<open>updated_at\<close> and version plus 1 in the same write, and when no row
  has the expected id and version it affects zero rows and leaves the table as it was.
  \<open>Release\<close>, \<open>UpdateTime\<close> (the heartbeat) and \<open>UpdateNextTime\<close> (the reschedule)
  are keyed on the id alone: each rewrites the rows with the given id, whatever their
  version, leaves the rows with another id as they were, and leaves every version as it
  was.
\<close>

theorem version_written_by_claim_only:
  "(\<forall>rows' n. claim_update None j now rows = Inr (rows', n) \<longrightarrow>
      (\<forall>r\<in>set rows. Id r = Id j \<and> Version r = Version j \<longrightarrow>
         r\<lparr>Status := jobStatusRunning, Version := Version r + 1, UpdatedTime := now\<rparr> \<in> set rows') \<and>
      ((\<forall>r\<in>set rows. \<not> (Id r = Id j \<and> Version r = Version j)) \<longrightarrow> n = 0 \<and> rows' = rows)) \<and>
   map Version (fst (Release None now jid rows)) = map Version rows \<and>
   map Version (fst (UpdateTime None now jid rows)) = map Version rows \<and>
   map Version (fst (UpdateNextTime None now jid t rows)) = map Version rows \<and>
   (\<forall>r\<in>set rows. Id r = jid \<longrightarrow>
      r\<lparr>Status := jobStatusWaiting, UpdatedTime := now\<rparr> \<in> set (fst (Release None now jid rows)) \<and>
      r\<lparr>UpdatedTime := now\<rparr> \<in> set (fst (UpdateTime None now jid rows)) \<and>
      r\<lparr>UpdatedTime := now, NextTime := t\<rparr> \<in> set (fst (UpdateNextTime None now jid t rows))) \<and>
   length (fst (Release None now jid rows)) = length rows \<and>
   length (fst (UpdateTime None now jid rows)) = length rows \<and>
   length (fst (UpdateNextTime None now jid t rows)) = length rows \<and>
   (\<forall>k<length rows.
      fst (Release None now jid rows) ! k =
        (if Id (rows ! k) = jid then (rows ! k)\<lparr>Status := jobStatusWaiting, UpdatedTime := now\<rparr>
         else rows ! k) \<and>
      fst (UpdateTime None now jid rows) ! k =
        (if Id (rows ! k) = jid then (rows ! k)\<lparr>UpdatedTime := now\<rparr> else rows ! k) \<and>
      fst (UpdateNextTime None now jid t rows) ! k =
        (if Id (rows ! k) = jid then (rows ! k)\<lparr>UpdatedTime := now, NextTime := t\<rparr>
         else rows ! k))"
proof -
  have 1: "r\<lparr>Status := jobStatusRunning, Version := Version r + 1, UpdatedTime := now\<rparr> \<in> set rows'"
    if "claim_update None j now rows = Inr (rows', n)" "r \<in> set rows" "Id r = Id j" "Version r = Version j"
    for rows' n r
    using that by (auto simp: claim_update_def Updates_def intro!: rev_image_eqI [of r])
  have 2: "n = 0 \<and> rows' = rows"
    if "claim_update None j now rows = Inr (rows', n)" "\<forall>r\<in>set rows. \<not> (Id r = Id j \<and> Version r = Version j)"
    for rows' n
    using that by (simp add: claim_update_def Updates_none)
  have 3: "map Version (fst (Release None now jid rows)) = map Version rows"
    "map Version (fst (UpdateTime None now jid rows)) = map Version rows"
    "map Version (fst (UpdateNextTime None now jid t rows)) = map Version rows"
    by (simp_all add: Release_keeps UpdateTime_keeps UpdateNextTime_keeps)
  have 4: "r\<lparr>Status := jobStatusWaiting, UpdatedTime := now\<rparr> \<in> set (fst (Release None now jid rows))"
    "r\<lparr>UpdatedTime := now\<rparr> \<in> set (fst (UpdateTime None now jid rows))"
    "r\<lparr>UpdatedTime := now, NextTime := t\<rparr> \<in> set (fst (UpdateNextTime None now jid t rows))"
    if "r \<in> set rows" "Id r = jid" for r
    using that by (simp_all add: Release_member UpdateTime_member UpdateNextTime_member)
  note 5 = Release_nth [of now jid rows] UpdateTime_nth [of now jid rows]
    UpdateNextTime_nth [of now jid t rows]
  have a: "\<forall>rows' n. claim_update None j now rows = Inr (rows', n) \<longrightarrow>
      (\<forall>r\<in>set rows. Id r = Id j \<and> Version r = Version j \<longrightarrow>
         r\<lparr>Status := jobStatusRunning, Version := Version r + 1, UpdatedTime := now\<rparr> \<in> set rows') \<and>
      ((\<forall>r\<in>set rows. \<not> (Id r = Id j \<and> Version r = Version j)) \<longrightarrow> n = 0 \<and> rows' = rows)"
    using 1 2 by blast
  have b: "\<forall>r\<in>set rows. Id r = jid \<longrightarrow>
      r\<lparr>Status := jobStatusWaiting, UpdatedTime := now\<rparr> \<in> set (fst (Release None now jid rows)) \<and>
      r\<lparr>UpdatedTime := now\<rparr> \<in> set (fst (UpdateTime None now jid rows)) \<and>
      r\<lparr>UpdatedTime := now, NextTime := t\<rparr> \<in> set (fst (UpdateNextTime None now jid t rows))"
    using 4 by blast
  have c: "\<forall>k<length rows.
      fst (Release None now jid rows) ! k =
        (if Id (rows ! k) = jid then (rows ! k)\<lparr>Status := jobStatusWaiting, UpdatedTime := now\<rparr>
         else rows ! k) \<and>
      fst (UpdateTime None now jid rows) ! k =
        (if Id (rows ! k) = jid then (rows ! k)\<lparr>UpdatedTime := now\<rparr> else rows ! k) \<and>
      fst (UpdateNextTime None now jid t rows) ! k =
        (if Id (rows ! k) = jid then (rows ! k)\<lparr>UpdatedTime := now, NextTime := t\<rparr>
         else rows ! k)"
    using 5 by blast
  show ?thesis by (intro conjI a b c 3 5 [THEN conjunct1])
qed

theorem version_written_by_claim_only_witness:
  "claim_update None (row 1 0 5 50 0) 100 [row 1 0 5 50 0] = Inr ([row 1 1 6 50 100], 1) \<and>
   row 1 0 5 50 0 \<in> set [row 1 0 5 50 0] \<and>
   (row 1 0 5 50 0)\<lparr>Status := jobStatusRunning, Version := Version (row 1 0 5 50 0) + 1,
      UpdatedTime := 100\<rparr> \<in> set [row 1 1 6 50 100] \<and>
   claim_update None (row 1 0 5 50 0) 100 [row 1 0 6 50 0] = Inr ([row 1 0 6 50 0], 0) \<and>
   fst (Release None 200 1 [row 1 1 6 50 100, row 2 1 3 70 100]) =
     [row 1 0 6 50 200, row 2 1 3 70 100] \<and>
   fst (UpdateTime None 200 1 [row 1 1 6 50 100, row 2 1 3 70 100]) =
     [row 1 1 6 50 200, row 2 1 3 70 100] \<and>
   fst (UpdateNextTime None 200 1 300 [row 1 1 6 50 100, row 2 1 3 70 100]) =
     [row 1 1 6 300 200, row 2 1 3 70 100] \<and>
   Id ([row 1 1 6 50 100, row 2 1 3 70 100] ! 1) \<noteq> 1 \<and>
   fst (Release None 200 1 [row 1 1 6 50 100, row 2 1 3 70 100]) ! 1 = row 2 1 3 70 100 \<and>
   fst (UpdateTime None 200 1 [row 1 1 6 50 100, row 2 1 3 70 100]) ! 1 = row 2 1 3 70 100 \<and>
   fst (UpdateNextTime None 200 1 300 [row 1 1 6 50 100, row 2 1 3 70 100]) ! 1 = row 2 1 3 70 100"
proof -
  have e: "claim_update None (row 1 0 5 50 0) 100 [row 1 0 5 50 0] = Inr ([row 1 1 6 50 100], 1)"
    "claim_update None (row 1 0 5 50 0) 100 [row 1 0 6 50 0] = Inr ([row 1 0 6 50 0], 0)"
    "fst (Release None 200 1 [row 1 1 6 50 100, row 2 1 3 70 100]) =
       [row 1 0 6 50 200, row 2 1 3 70 100]"
    "fst (UpdateTime None 200 1 [row 1 1 6 50 100, row 2 1 3 70 100]) =
       [row 1 1 6 50 200, row 2 1 3 70 100]"
    "fst (UpdateNextTime None 200 1 300 [row 1 1 6 50 100, row 2 1 3 70 100]) =
       [row 1 1 6 300 200, row 2 1 3 70 100]"
    "Id ([row 1 1 6 50 100, row 2 1 3 70 100] ! 1) \<noteq> 1"
    by (simp_all add: Release_def UpdateTime_def UpdateNextTime_def run_defs)
  have m: "row 1 0 5 50 0 \<in> set [row 1 0 5 50 0]" by simp
  from version_written_by_claim_only
    [where j = "row 1 0 5 50 0" and now = 100 and rows = "[row 1 0 5 50 0]"]
  have "\<forall>r\<in>set [row 1 0 5 50 0]. Id r = Id (row 1 0 5 50 0) \<and> Version r = Version (row 1 0 5 50 0) \<longrightarrow>
         r\<lparr>Status := jobStatusRunning, Version := Version r + 1, UpdatedTime := 100\<rparr> \<in> set [row 1 1 6 50 100]"
    using e(1) by blast
  with m have c: "(row 1 0 5 50 0)\<lparr>Status := jobStatusRunning, Version := Version (row 1 0 5 50 0) + 1,
      UpdatedTime := 100\<rparr> \<in> set [row 1 1 6 50 100]" by blast
  have "fst (Release None 200 1 [row 1 1 6 50 100, row 2 1 3 70 100]) ! 1 =
        [row 1 0 6 50 200, row 2 1 3 70 100] ! 1"
    "fst (UpdateTime None 200 1 [row 1 1 6 50 100, row 2 1 3 70 100]) ! 1 =
        [row 1 1 6 50 200, row 2 1 3 70 100] ! 1"
    "fst (UpdateNextTime None 200 1 300 [row 1 1 6 50 100, row 2 1 3 70 100]) ! 1 =
        [row 1 1 6 300 200, row 2 1 3 70 100] ! 1"
    by (simp_all only: e)
  then have f: "fst (Release None 200 1 [row 1 1 6 50 100, row 2 1 3 70 100]) ! 1 = row 2 1 3 70 100"
    "fst (UpdateTime None 200 1 [row 1 1 6 50 100, row 2 1 3 70 100]) ! 1 = row 2 1 3 70 100"
    "fst (UpdateNextTime None 200 1 300 [row 1 1 6 50 100, row 2 1 3 70 100]) ! 1 = row 2 1 3 70 100"
    by simp_all
  show ?thesis by (intro conjI e m c f)
qed

text \<open>
  C5 as stated fails: the heartbeat on the Running row of version 6 writes \<open>updated_at\<close>
  and leaves version 6.
\<close>

theorem heartbeat_keeps_version_counterexample:
  "UpdateTime None 200 1 [row 1 1 6 50 100] = ([row 1 1 6 50 200], None) \<and>
   Version (row 1 1 6 50 200) = Version (row 1 1 6 50 100) \<and>
   UpdatedTime (row 1 1 6 50 200) \<noteq> UpdatedTime (row 1 1 6 50 100)"
  by (simp add: UpdateTime_def run_defs)

section \<open>The heartbeat\<close>

text \<open>
  C6 (as amended). \<open>UpdateTime\<close> takes an id and no version. When the store answers it
  returns no error and sets \<open>updated_at\<close> on the rows with that id, whatever the version
  and status of the row; rows with another id are left as they were, and id, status,
  version and \<open>next_time\<close> of every row stay as they were.
\<close>

theorem UpdateTime_ignores_version:
  assumes "r \<in> set rows" and "Id r = jid"
  shows "snd (UpdateTime None now jid rows) = None \<and>
    r\<lparr>UpdatedTime := now\<rparr> \<in> set (fst (UpdateTime None now jid rows)) \<and>
    map Version (fst (UpdateTime None now jid rows)) = map Version rows \<and>
    map Status (fst (UpdateTime None now jid rows)) = map Status rows \<and>
    map NextTime (fst (UpdateTime None now jid rows)) = map NextTime rows \<and>
    map Id (fst (UpdateTime None now jid rows)) = map Id rows \<and>
    length (fst (UpdateTime None now jid rows)) = length rows \<and>
    (\<forall>k<length rows. fst (UpdateTime None now jid rows) ! k =
       (if Id (rows ! k) = jid then (rows ! k)\<lparr>UpdatedTime := now\<rparr> else rows ! k))"
proof -
  have a: "snd (UpdateTime None now jid rows) = None" by (simp add: UpdateTime_def)
  from assms have b: "r\<lparr>UpdatedTime := now\<rparr> \<in> set (fst (UpdateTime None now jid rows))"
    by (rule UpdateTime_member)
  have c: "map Version (fst (UpdateTime None now jid rows)) = map Version rows"
    "map Status (fst (UpdateTime None now jid rows)) = map Status rows"
    "map NextTime (fst (UpdateTime None now jid rows)) = map NextTime rows"
    "map Id (fst (UpdateTime None now jid rows)) = map Id rows"
    by (simp_all add: UpdateTime_keeps)
  note d = UpdateTime_nth [of now jid rows]
  show ?thesis by (intro conjI a b c d [THEN conjunct1] d [THEN conjunct2])
qed

theorem UpdateTime_ignores_version_witness:
  "row 1 0 7 50 100 \<in> set [row 1 0 7 50 100, row 2 1 3 70 100] \<and> Id (row 1 0 7 50 100) = 1 \<and>
   UpdateTime None 999 1 [row 1 0 7 50 100, row 2 1 3 70 100] =
     ([row 1 0 7 50 999, row 2 1 3 70 100], None) \<and>
   Id ([row 1 0 7 50 100, row 2 1 3 70 100] ! 1) \<noteq> 1 \<and>
   fst (UpdateTime None 999 1 [row 1 0 7 50 100, row 2 1 3 70 100]) ! 1 = row 2 1 3 70 100"
proof -
  have h: "row 1 0 7 50 100 \<in> set [row 1 0 7 50 100, row 2 1 3 70 100]" "Id (row 1 0 7 50 100) = 1"
    by (simp_all add: row_def)
  have e: "UpdateTime None 999 1 [row 1 0 7 50 100, row 2 1 3 70 100] =
     ([row 1 0 7 50 999, row 2 1 3 70 100], None)"
    "Id ([row 1 0 7 50 100, row 2 1 3 70 100] ! 1) \<noteq> 1"
    by (simp_all add: UpdateTime_def run_defs)
  note t = UpdateTime_ignores_version [OF h, of 999]
  from t have "\<forall>k<length [row 1 0 7 50 100, row 2 1 3 70 100].
      fst (UpdateTime None 999 1 [row 1 0 7 50 100, row 2 1 3 70 100]) ! k =
       (if Id ([row 1 0 7 50 100, row 2 1 3 70 100] ! k) = 1
        then ([row 1 0 7 50 100, row 2 1 3 70 100] ! k)\<lparr>UpdatedTime := 999\<rparr>
        else [row 1 0 7 50 100, row 2 1 3 70 100] ! k)"
    by blast
  from this [rule_format, of 1] e(2)
  have f: "fst (UpdateTime None 999 1 [row 1 0 7 50 100, row 2 1 3 70 100]) ! 1 = row 2 1 3 70 100"
    by simp
  show ?thesis by (intro conjI h e f)
qed

text \<open>
  C6 as stated fails: the row was handed back (Waiting, version 7) after the owner read
  version 6; the owner's heartbeat returns no error and rewrites \<open>updated_at\<close>.
\<close>

theorem stale_heartbeat_mutates_counterexample:
  "UpdateTime None 999 1 [row 1 0 7 50 100] = ([row 1 0 7 50 999], None) \<and>
   [row 1 0 7 50 999] \<noteq> [row 1 0 7 50 100]"
  by (simp add: UpdateTime_def run_defs)

section \<open>Returning a Running job to Waiting\<close>

text \<open>
  C2 (as amended). The interface has no reclaim operation. For a Running job of a table
  with a primary key, no call of the interface leaves the job Waiting with its version
  incremented by 1, whatever the clock reading, so whatever the age of \<open>updated_at\<close>.
  The call that returns it to Waiting is \<open>Release\<close> with its id, an unconditional
  update keyed on the id alone: the row with the id gets status Waiting and
  \<open>updated_at\<close>, its version left as it was, and every other row is left as it was.
  After it the job is claimable again: at every time after its \<open>next_time\<close> the query
  finds a job, and when no due row has a smaller id the query selects this job and a
  \<open>Preempt\<close> that runs alone returns it and claims it.
\<close>

theorem Release_is_the_only_way_back:
  assumes "pk_ok rows" and "r \<in> set rows" and "Status r = jobStatusRunning"
  shows "(\<forall>c now rows'. run_call c now rows = Some rows' \<longrightarrow>
            \<not> (\<exists>r'\<in>set rows'. Id r' = Id r \<and> Status r' = jobStatusWaiting \<and>
                  Version r' = Version r + 1)) \<and>
         (\<forall>now. r\<lparr>Status := jobStatusWaiting, UpdatedTime := now\<rparr>
            \<in> set (fst (Release None now (Id r) rows)) \<and>
            (\<forall>later. NextTime r <s later \<longrightarrow>
               (\<exists>c. First_due None later (fst (Release None now (Id r) rows)) = Inr c))) \<and>
         (\<forall>now. length (fst (Release None now (Id r) rows)) = length rows \<and>
            (\<forall>k<length rows. fst (Release None now (Id r) rows) ! k =
               (if Id (rows ! k) = Id r
                then (rows ! k)\<lparr>Status := jobStatusWaiting, UpdatedTime := now\<rparr>
                else rows ! k))) \<and>
         (\<forall>now later. NextTime r <s later \<and>
            (\<forall>x\<in>set (fst (Release None now (Id r) rows)). due later x \<longrightarrow> Id r \<le>s Id x) \<longrightarrow>
            First_due None later (fst (Release None now (Id r) rows)) =
              Inr (r\<lparr>Status := jobStatusWaiting, UpdatedTime := now\<rparr>) \<and>
            (\<exists>rows'. Preempt (\<lambda>k. quiet later) 0 (fst (Release None now (Id r) rows)) =
                 Some ((r\<lparr>Status := jobStatusWaiting, UpdatedTime := now\<rparr>, None), rows') \<and>
               claimed later (r\<lparr>Status := jobStatusWaiting, UpdatedTime := now\<rparr>) \<in> set rows'))"
proof -
  have a: "\<not> (\<exists>r'\<in>set rows'. Id r' = Id r \<and> Status r' = jobStatusWaiting \<and> Version r' = Version r + 1)"
    if "run_call c now rows = Some rows'" for c now rows'
    using no_call_reclaims [OF assms that] by blast
  have b: "r\<lparr>Status := jobStatusWaiting, UpdatedTime := now\<rparr> \<in> set (fst (Release None now (Id r) rows))"
    for now
    using assms(2) by (simp add: Release_member)
  have c: "\<exists>c. First_due None later (fst (Release None now (Id r) rows)) = Inr c"
    if "NextTime r <s later" for now later
  proof -
    from that have "due later (r\<lparr>Status := jobStatusWaiting, UpdatedTime := now\<rparr>)"
      by (simp add: due_def)
    with b [of now] show ?thesis by (rule First_due_finds)
  qed
  have d: "length (fst (Release None now (Id r) rows)) = length rows \<and>
            (\<forall>k<length rows. fst (Release None now (Id r) rows) ! k =
               (if Id (rows ! k) = Id r
                then (rows ! k)\<lparr>Status := jobStatusWaiting, UpdatedTime := now\<rparr>
                else rows ! k))" for now
    by (rule Release_nth)
  have e: "First_due None later (fst (Release None now (Id r) rows)) =
              Inr (r\<lparr>Status := jobStatusWaiting, UpdatedTime := now\<rparr>) \<and>
            (\<exists>rows'. Preempt (\<lambda>k. quiet later) 0 (fst (Release None now (Id r) rows)) =
                 Some ((r\<lparr>Status := jobStatusWaiting, UpdatedTime := now\<rparr>, None), rows') \<and>
               claimed later (r\<lparr>Status := jobStatusWaiting, UpdatedTime := now\<rparr>) \<in> set rows')"
    if "NextTime r <s later"
      "\<forall>x\<in>set (fst (Release None now (Id r) rows)). due later x \<longrightarrow> Id r \<le>s Id x"
    for now later
  proof -
    note f = released_selected [OF assms(1,2) that]
    from f Preempt_alone_claims [OF f] show ?thesis by blast
  qed
  have 1: "\<forall>c now rows'. run_call c now rows = Some rows' \<longrightarrow>
            \<not> (\<exists>r'\<in>set rows'. Id r' = Id r \<and> Status r' = jobStatusWaiting \<and>
                  Version r' = Version r + 1)"
    using a by blast
  have 2: "\<forall>now. r\<lparr>Status := jobStatusWaiting, UpdatedTime := now\<rparr>
            \<in> set (fst (Release None now (Id r) rows)) \<and>
            (\<forall>later. NextTime r <s later \<longrightarrow>
               (\<exists>c. First_due None later (fst (Release None now (Id r) rows)) = Inr c))"
    using b c by blast
  have 3: "\<forall>now. length (fst (Release None now (Id r) rows)) = length rows \<and>
            (\<forall>k<length rows. fst (Release None now (Id r) rows) ! k =
               (if Id (rows ! k) = Id r
                then (rows ! k)\<lparr>Status := jobStatusWaiting, UpdatedTime := now\<rparr>
                else rows ! k))"
    using d by blast
  have 4: "\<forall>now later. NextTime r <s later \<and>
            (\<forall>x\<in>set (fst (Release None now (Id r) rows)). due later x \<longrightarrow> Id r \<le>s Id x) \<longrightarrow>
            First_due None later (fst (Release None now (Id r) rows)) =
              Inr (r\<lparr>Status := jobStatusWaiting, UpdatedTime := now\<rparr>) \<and>
            (\<exists>rows'. Preempt (\<lambda>k. quiet later) 0 (fst (Release None now (Id r) rows)) =
                 Some ((r\<lparr>Status := jobStatusWaiting, UpdatedTime := now\<rparr>, None), rows') \<and>
               claimed later (r\<lparr>Status := jobStatusWaiting, UpdatedTime := now\<rparr>) \<in> set rows')"
    using e by blast
  show ?thesis by (intro conjI 1 2 3 4)
qed

theorem Release_is_the_only_way_back_witness:
  "pk_ok [row 1 1 6 50 100, row 2 0 3 70 100] \<and>
   row 1 1 6 50 100 \<in> set [row 1 1 6 50 100, row 2 0 3 70 100] \<and>
   Status (row 1 1 6 50 100) = jobStatusRunning \<and>
   run_call (CallRelease 1) 5000 [row 1 1 6 50 100, row 2 0 3 70 100] =
     Some [row 1 0 6 50 5000, row 2 0 3 70 100] \<and>
   Version (row 1 0 6 50 5000) \<noteq> Version (row 1 1 6 50 100) + 1 \<and>
   NextTime (row 1 1 6 50 100) <s 5001 \<and>
   fst (Release None 5000 (Id (row 1 1 6 50 100)) [row 1 1 6 50 100, row 2 0 3 70 100]) =
     [row 1 0 6 50 5000, row 2 0 3 70 100] \<and>
   due 5001 (row 2 0 3 70 100) \<and> Id (row 1 1 6 50 100) \<le>s Id (row 2 0 3 70 100) \<and>
   First_due None 5001
     (fst (Release None 5000 (Id (row 1 1 6 50 100)) [row 1 1 6 50 100, row 2 0 3 70 100])) =
     Inr (row 1 0 6 50 5000) \<and>
   Preempt (\<lambda>k. quiet 5001) 0 [row 1 0 6 50 5000, row 2 0 3 70 100] =
     Some ((row 1 0 6 50 5000, None), [row 1 1 7 50 5001, row 2 0 3 70 100])"
proof -
  have h: "pk_ok [row 1 1 6 50 100, row 2 0 3 70 100]"
    "row 1 1 6 50 100 \<in> set [row 1 1 6 50 100, row 2 0 3 70 100]"
    "Status (row 1 1 6 50 100) = jobStatusRunning"
    by (simp_all add: pk_ok_def row_def status_defs)
  have rel: "fst (Release None 5000 (Id (row 1 1 6 50 100)) [row 1 1 6 50 100, row 2 0 3 70 100]) =
     [row 1 0 6 50 5000, row 2 0 3 70 100]"
    by (simp add: Release_def run_defs)
  have e: "run_call (CallRelease 1) 5000 [row 1 1 6 50 100, row 2 0 3 70 100] =
     Some [row 1 0 6 50 5000, row 2 0 3 70 100]"
    "Version (row 1 0 6 50 5000) \<noteq> Version (row 1 1 6 50 100) + 1"
    "NextTime (row 1 1 6 50 100) <s 5001"
    "due 5001 (row 2 0 3 70 100)" "Id (row 1 1 6 50 100) \<le>s Id (row 2 0 3 70 100)"
    by (simp_all add: run_call_def Release_def run_defs)
  have upd: "(row 1 1 6 50 100)\<lparr>Status := jobStatusWaiting, UpdatedTime := 5000\<rparr> = row 1 0 6 50 5000"
    by (simp add: row_def status_defs)
  have least: "\<forall>x\<in>set (fst (Release None 5000 (Id (row 1 1 6 50 100))
       [row 1 1 6 50 100, row 2 0 3 70 100])). due 5001 x \<longrightarrow> Id (row 1 1 6 50 100) \<le>s Id x"
    unfolding rel by (simp add: row_def word_sle_eq)
  from Release_is_the_only_way_back [OF h, THEN conjunct2, THEN conjunct2, THEN conjunct2,
      THEN spec, THEN spec, THEN mp, OF conjI, OF e(3) least]
  have f: "First_due None 5001
     (fst (Release None 5000 (Id (row 1 1 6 50 100)) [row 1 1 6 50 100, row 2 0 3 70 100])) =
     Inr (row 1 0 6 50 5000)"
    by (simp add: upd)
  have g: "Preempt (\<lambda>k. quiet 5001) 0 [row 1 0 6 50 5000, row 2 0 3 70 100] =
     Some ((row 1 0 6 50 5000, None), [row 1 1 7 50 5001, row 2 0 3 70 100])"
    by (subst Preempt.simps) (simp add: run_defs)
  show ?thesis by (intro conjI h e rel f g)
qed

text \<open>
  C2 as stated fails: for the Running row of version 6 last updated at 100, no call of
  the interface, at any clock reading, leaves it Waiting with version 7.
\<close>

theorem no_reclaim_counterexample:
  "\<not> (\<exists>c now rows'. run_call c now [row 1 1 6 50 100] = Some rows' \<and>
        (\<exists>r'\<in>set rows'. Id r' = 1 \<and> Status r' = jobStatusWaiting \<and> Version r' = 7))"
proof
  assume "\<exists>c now rows'. run_call c now [row 1 1 6 50 100] = Some rows' \<and>
        (\<exists>r'\<in>set rows'. Id r' = 1 \<and> Status r' = jobStatusWaiting \<and> Version r' = 7)"
  then obtain c now rows' r' where run: "run_call c now [row 1 1 6 50 100] = Some rows'"
    and r': "r' \<in> set rows'" "Id r' = 1" "Status r' = jobStatusWaiting" "Version r' = 7"
    by blast
  have "\<not> (Status r' = jobStatusWaiting \<and> Version r' = Version (row 1 1 6 50 100) + 1)"
    by (rule no_call_reclaims [OF _ _ _ run r'(1)]) (simp_all add: pk_ok_def row_def status_defs r'(2))
  with r' show False by (simp add: row_def)
qed

section \<open>Mutual exclusion of concurrent calls of Preempt\<close>

text \<open>
  C1. \<open>N\<close> sessions run \<open>Preempt\<close> against a table with a primary key, their statements
  interleaved by any schedule \<open>evs\<close>, the store failing where the schedule says. A
  conditional update keyed on an id and a version affects at most one row, and once it
  has run no update with the same key affects a row. In every state the schedule reaches,
  no two sessions have returned with the same job, and for a session that has returned
  with a job the stored row has status Running and the version the session read plus 1.
  When \<open>N \<ge> 2\<close> sessions contend for a single due job \<open>j0\<close>, the store answers and the
  schedule gives every session at least three statements, every session has returned:
  exactly one with \<open>j0\<close> and every other one with \<open>ErrRecordNotFound\<close>.
\<close>

theorem Preempt_mutual_exclusion:
  assumes "pk_ok rows0" and "run evs (rows0, replicate N Start) = (rows, ws)"
  shows
   "(\<forall>j t t' rows2 n. claim_update None j t rows0 = Inr (rows2, n) \<longrightarrow>
       n \<le> 1 \<and> claim_update None j t' rows2 = Inr (rows2, 0)) \<and>
    (\<forall>i<N. \<forall>i'<N. \<forall>j j'.
       ws ! i = Done (j, None) \<and> ws ! i' = Done (j', None) \<and> Id j = Id j' \<longrightarrow> i = i') \<and>
    (\<forall>i<N. \<forall>j. ws ! i = Done (j, None) \<longrightarrow>
       j \<in> set rows0 \<and> Status j = jobStatusWaiting \<and>
       (\<exists>r\<in>set rows. Id r = Id j \<and> Status r = jobStatusRunning \<and> Version r = Version j + 1)) \<and>
    (\<forall>j0. 2 \<le> N \<and> j0 \<in> set rows0 \<and>
       (\<forall>(i, now, fault)\<in>set evs. fault = None \<and> (\<forall>r\<in>set rows0. due now r \<longleftrightarrow> r = j0)) \<and>
       (\<forall>i<N. 3 \<le> turns i evs) \<longrightarrow>
       (\<exists>i<N. ws ! i = Done (j0, None) \<and>
          (\<forall>i'<N. i' \<noteq> i \<longrightarrow> ws ! i' = Done (zero_Job, Some ErrRecordNotFound))))"
proof -
  from safe_run [OF assms(1), of evs N] assms(2) have s: "safe rows0 (rows, ws)" by simp
  from length_run [of evs "(rows0, replicate N Start)"] assms(2) have len: "length ws = N" by simp
  have excl: "i = i'"
    if "i < N" "i' < N" "ws ! i = Done (j, None)" "ws ! i' = Done (j', None)" "Id j = Id j'"
    for i i' j j'
    using safe_exclusive [OF s] that len unfolding exclusive_def by blast
  have own: "j \<in> set rows0 \<and> Status j = jobStatusWaiting \<and>
       (\<exists>r\<in>set rows. Id r = Id j \<and> Status r = jobStatusRunning \<and> Version r = Version j + 1)"
    if "i < N" "ws ! i = Done (j, None)" for i j
  proof -
    from that len have "Done (j, None) \<in> set ws" by (metis nth_mem)
    from safe_Done [OF s this] obtain t where "j \<in> set rows0" "Status j = jobStatusWaiting"
      "claimed t j \<in> set rows" by blast
    then show ?thesis by (intro conjI bexI [of _ "claimed t j"]) (simp_all add: claimed_def)
  qed
  have one: "\<exists>i<N. ws ! i = Done (j0, None) \<and>
          (\<forall>i'<N. i' \<noteq> i \<longrightarrow> ws ! i' = Done (zero_Job, Some ErrRecordNotFound))"
    if n: "2 \<le> N" and j0: "j0 \<in> set rows0"
      and calm: "\<forall>(i, now, fault)\<in>set evs. fault = None \<and> (\<forall>r\<in>set rows0. due now r \<longleftrightarrow> r = j0)"
      and fair: "\<forall>i<N. 3 \<le> turns i evs" for j0
  proof -
    have fin: "\<forall>i<N. \<exists>res. ws ! i = Done res"
      using all_return [OF assms(1) j0 calm assms(2)] fair by blast
    from lone_run [OF assms(1) j0 calm, of N] assms(2) have l: "lone rows0 j0 (rows, ws)" by simp
    from n have pos: "0 < N" by simp
    with fin obtain res where "ws ! 0 = Done res" by blast
    with pos len have d0: "Done res \<in> set ws" by (metis nth_mem)
    have "\<exists>w j. w \<in> set ws \<and> w = Done (j, None)"
    proof (rule ccontr)
      assume "\<not> (\<exists>w j. w \<in> set ws \<and> w = Done (j, None))"
      then have "\<And>w j. w \<in> set ws \<Longrightarrow> w \<noteq> Done (j, None)" by blast
      from lone_untouched [OF l this] d0 show False by blast
    qed
    then obtain j where "Done (j, None) \<in> set ws" by blast
    with lone_Done [OF l this] have "Done (j0, None) \<in> set ws" by auto
    then obtain i where i: "i < N" "ws ! i = Done (j0, None)"
      using len by (auto simp: in_set_conv_nth)
    have "ws ! i' = Done (zero_Job, Some ErrRecordNotFound)" if "i' < N" "i' \<noteq> i" for i'
    proof -
      from fin that(1) obtain j' e where r: "ws ! i' = Done (j', e)" by (metis surj_pair)
      with that(1) len have "Done (j', e) \<in> set ws" by (metis nth_mem)
      from lone_Done [OF l this] show ?thesis
      proof
        assume "e = None \<and> j' = j0"
        with r i that excl [of i i' j0 j0] show ?thesis by simp
      next
        assume "e = Some ErrRecordNotFound \<and> j' = zero_Job"
        with r show ?thesis by simp
      qed
    qed
    with i show ?thesis by blast
  qed
  have once: "n \<le> 1 \<and> claim_update None j t' rows2 = Inr (rows2, 0)"
    if "claim_update None j t rows0 = Inr (rows2, n)" for j t t' rows2 n
    using assms(1) that by (rule claim_update_once)
  from once excl own one show ?thesis by (intro conjI allI impI) blast+
qed

theorem Preempt_mutual_exclusion_witness:
  "pk_ok [row 1 0 5 50 0] \<and>
   run [(0, 100, None), (1, 100, None), (1, 100, None), (0, 100, None), (0, 101, None),
       (1, 101, None)]
     ([row 1 0 5 50 0], replicate 2 Start) =
   ([row 1 1 6 50 100],
    [Done (zero_Job, Some ErrRecordNotFound), Done (row 1 0 5 50 0, None)]) \<and>
   claim_update None (row 1 0 5 50 0) 100 [row 1 0 5 50 0] = Inr ([row 1 1 6 50 100], 1) \<and>
   claim_update None (row 1 0 5 50 0) 100 [row 1 1 6 50 100] = Inr ([row 1 1 6 50 100], 0) \<and>
   (2::nat) \<le> 2 \<and> row 1 0 5 50 0 \<in> set [row 1 0 5 50 0] \<and>
   due 100 (row 1 0 5 50 0) \<and> due 101 (row 1 0 5 50 0) \<and>
   turns 0 [(0::nat, 100::int64, None::error option), (1, 100, None), (1, 100, None),
       (0, 100, None), (0, 101, None), (1, 101, None)] = 3 \<and>
   turns 1 [(0::nat, 100::int64, None::error option), (1, 100, None), (1, 100, None),
       (0, 100, None), (0, 101, None), (1, 101, None)] = 3 \<and>
   Id (row 1 1 6 50 100) = Id (row 1 0 5 50 0) \<and>
   Status (row 1 1 6 50 100) = jobStatusRunning \<and>
   Version (row 1 1 6 50 100) = Version (row 1 0 5 50 0) + 1 \<and>
   [Done (zero_Job, Some ErrRecordNotFound), Done (row 1 0 5 50 0, None)] ! 1 =
     Done (row 1 0 5 50 0, None) \<and>
   [Done (zero_Job, Some ErrRecordNotFound), Done (row 1 0 5 50 0, None)] ! 0 =
     Done (zero_Job, Some ErrRecordNotFound)"
proof -
  have pk: "pk_ok [row 1 0 5 50 0]" by (simp add: pk_ok_def)
  have calm: "\<forall>(i, now, fault)\<in>set [(0::nat, 100, None), (1, 100, None), (1, 100, None),
       (0, 100, None), (0, 101, None), (1, 101, None)].
      fault = None \<and> (\<forall>r\<in>set [row 1 0 5 50 0]. due now r \<longleftrightarrow> r = row 1 0 5 50 0)"
    by (simp add: due_def row_def status_defs word_sless_alt)
  have t3: "turns 0 [(0::nat, 100::int64, None::error option), (1, 100, None), (1, 100, None),
       (0, 100, None), (0, 101, None), (1, 101, None)] = 3"
    "turns 1 [(0::nat, 100::int64, None::error option), (1, 100, None), (1, 100, None),
       (0, 100, None), (0, 101, None), (1, 101, None)] = 3"
    by (simp_all add: turns_def)
  then have fin: "\<forall>i<2. 3 \<le> turns i [(0::nat, 100::int64, None::error option), (1, 100, None),
       (1, 100, None), (0, 100, None), (0, 101, None), (1, 101, None)]"
    by (simp add: less_2_cases_iff)
  have prem: "2 \<le> (2::nat) \<and> row 1 0 5 50 0 \<in> set [row 1 0 5 50 0] \<and>
       (\<forall>(i, now, fault)\<in>set [(0::nat, 100, None), (1, 100, None), (1, 100, None),
       (0, 100, None), (0, 101, None), (1, 101, None)].
          fault = None \<and> (\<forall>r\<in>set [row 1 0 5 50 0]. due now r \<longleftrightarrow> r = row 1 0 5 50 0)) \<and>
       (\<forall>i<2. 3 \<le> turns i [(0::nat, 100::int64, None::error option), (1, 100, None),
       (1, 100, None), (0, 100, None), (0, 101, None), (1, 101, None)])"
    by (intro conjI calm fin) simp_all
  have b: "\<exists>i<2. [Done (zero_Job, Some ErrRecordNotFound), Done (row 1 0 5 50 0, None)] ! i =
        Done (row 1 0 5 50 0, None) \<and>
      (\<forall>i'<2. i' \<noteq> i \<longrightarrow>
         [Done (zero_Job, Some ErrRecordNotFound), Done (row 1 0 5 50 0, None)] ! i' =
         Done (zero_Job, Some ErrRecordNotFound))"
    by (rule Preempt_mutual_exclusion [OF pk two_sessions_run, THEN conjunct2, THEN conjunct2,
          THEN conjunct2, THEN spec, of "row 1 0 5 50 0", THEN mp, OF prem])
  then obtain i where i: "i < 2"
    "[Done (zero_Job, Some ErrRecordNotFound), Done (row 1 0 5 50 0, None)] ! i =
        Done (row 1 0 5 50 0, None)"
    and others: "\<forall>i'<2. i' \<noteq> i \<longrightarrow>
         [Done (zero_Job, Some ErrRecordNotFound), Done (row 1 0 5 50 0, None)] ! i' =
         Done (zero_Job, Some ErrRecordNotFound)"
    by blast
  from i have i1: "i = 1" by (cases "i = 0") (simp_all add: less_2_cases_iff)
  from others i1 have o0: "[Done (zero_Job, Some ErrRecordNotFound), Done (row 1 0 5 50 0, None)] ! 0 =
     Done (zero_Job, Some ErrRecordNotFound)"
    by simp
  have c: "claim_update None (row 1 0 5 50 0) 100 [row 1 0 5 50 0] = Inr ([row 1 1 6 50 100], 1)"
    by (simp add: run_defs)
  from Preempt_mutual_exclusion [OF pk two_sessions_run, THEN conjunct1] c
  have d: "claim_update None (row 1 0 5 50 0) 100 [row 1 1 6 50 100] = Inr ([row 1 1 6 50 100], 0)"
    by blast
  have e: "due 100 (row 1 0 5 50 0)" "due 101 (row 1 0 5 50 0)"
    "Id (row 1 1 6 50 100) = Id (row 1 0 5 50 0)"
    "Status (row 1 1 6 50 100) = jobStatusRunning"
    "Version (row 1 1 6 50 100) = Version (row 1 0 5 50 0) + 1"
    by (simp_all add: due_def row_def status_defs word_sless_alt)
  from i(2) i1 have o1: "[Done (zero_Job, Some ErrRecordNotFound), Done (row 1 0 5 50 0, None)] ! 1 =
     Done (row 1 0 5 50 0, None)" by simp
  show ?thesis by (intro conjI pk two_sessions_run c d e t3 o0 o1) simp_all
qed

section \<open>Like\<close>

text \<open>
  C10 (as amended). \<open>Like\<close> is a toggle on the boolean of the preceding \<open>Liked\<close>
  lookup alone, and the error of the lookup is discarded: when the boolean is true,
  with or without an error, \<open>Like\<close> is \<open>DecrLike\<close>; when it is false, with or without
  an error, \<open>Like\<close> is \<open>IncrLike\<close>; and putting any other error in place of the lookup's
  changes nothing. So a failed lookup on an already liked item increments a second time,
  without returning the error, when it yields \<open>false\<close> with its error.
\<close>

theorem Like_branches_on_liked:
  "(Liked repo biz bid uid s = ((True, err), s1) \<longrightarrow>
      Like repo biz bid uid s = DecrLike repo biz bid uid s1) \<and>
   (Liked repo biz bid uid s = ((False, err), s1) \<longrightarrow>
      Like repo biz bid uid s = IncrLike repo biz bid uid s1) \<and>
   Like (repo\<lparr>Liked := (\<lambda>biz bid uid s.
            case Liked repo biz bid uid s of ((liked, _), s1) \<Rightarrow> ((liked, err'), s1))\<rparr>)
     biz bid uid s = Like repo biz bid uid s"
  by (simp add: Like_def split: prod.splits)

theorem Like_branches_on_liked_witness:
  "Liked (example_repo False) ''article'' 7 9 \<lparr>like_cnt = 1, is_liked = True, lookup_down = True\<rparr> =
     ((False, Some ErrStore), \<lparr>like_cnt = 1, is_liked = True, lookup_down = True\<rparr>) \<and>
   Like (example_repo False) ''article'' 7 9 \<lparr>like_cnt = 1, is_liked = True, lookup_down = True\<rparr> =
     (None, \<lparr>like_cnt = 2, is_liked = True, lookup_down = True\<rparr>) \<and>
   Liked (example_repo False) ''article'' 7 9 \<lparr>like_cnt = 1, is_liked = True, lookup_down = False\<rparr> =
     ((True, None), \<lparr>like_cnt = 1, is_liked = True, lookup_down = False\<rparr>) \<and>
   Like (example_repo False) ''article'' 7 9 \<lparr>like_cnt = 1, is_liked = True, lookup_down = False\<rparr> =
     (None, \<lparr>like_cnt = 0, is_liked = False, lookup_down = False\<rparr>)"
proof -
  have e: "Liked (example_repo False) ''article'' 7 9 \<lparr>like_cnt = 1, is_liked = True, lookup_down = True\<rparr> =
     ((False, Some ErrStore), \<lparr>like_cnt = 1, is_liked = True, lookup_down = True\<rparr>)"
    "Liked (example_repo False) ''article'' 7 9 \<lparr>like_cnt = 1, is_liked = True, lookup_down = False\<rparr> =
     ((True, None), \<lparr>like_cnt = 1, is_liked = True, lookup_down = False\<rparr>)"
    by (simp_all add: example_repo_def)
  from Like_branches_on_liked [THEN conjunct2, THEN conjunct1, THEN mp, OF e(1)]
  have a: "Like (example_repo False) ''article'' 7 9 \<lparr>like_cnt = 1, is_liked = True, lookup_down = True\<rparr> =
     (None, \<lparr>like_cnt = 2, is_liked = True, lookup_down = True\<rparr>)"
    by (simp add: example_repo_def)
  from Like_branches_on_liked [THEN conjunct1, THEN mp, OF e(2)]
  have b: "Like (example_repo False) ''article'' 7 9 \<lparr>like_cnt = 1, is_liked = True, lookup_down = False\<rparr> =
     (None, \<lparr>like_cnt = 0, is_liked = False, lookup_down = False\<rparr>)"
    by (simp add: example_repo_def)
  show ?thesis by (intro conjI e a b)
qed

text \<open>
  C10 as stated fails: with a repository whose failed lookup returns \<open>true\<close> with its
  error, \<open>Like\<close> on a failed lookup decrements, from 1 to 0, and does not increment.
\<close>

theorem Like_failed_lookup_decrements_counterexample:
  "Liked (example_repo True) ''article'' 7 9 \<lparr>like_cnt = 1, is_liked = True, lookup_down = True\<rparr> =
     ((True, Some ErrStore), \<lparr>like_cnt = 1, is_liked = True, lookup_down = True\<rparr>) \<and>
   Like (example_repo True) ''article'' 7 9 \<lparr>like_cnt = 1, is_liked = True, lookup_down = True\<rparr> =
     (None, \<lparr>like_cnt = 0, is_liked = False, lookup_down = True\<rparr>) \<and>
   Like (example_repo True) ''article'' 7 9 \<lparr>like_cnt = 1, is_liked = True, lookup_down = True\<rparr> \<noteq>
     IncrLike (example_repo True) ''article'' 7 9 \<lparr>like_cnt = 1, is_liked = True, lookup_down = True\<rparr>"
  by (simp add: Like_def example_repo_def)

end
